theory Spec2Isabelle
  imports Main "HOL-Library.Word"
begin

unbundle bit_operations_syntax

section \<open>The data model of \<open>range_lock.hh\<close>\<close>

text \<open>
  \<open>range_lock\<close> divides a linear resource into regions of \<open>_region_size\<close> bytes and keeps,
  for the regions in use, a reference count and a mutex in the map \<open>_regions\<close>.
  All offsets, lengths, region ids and reference counts are \<open>uint64_t\<close>: 64-bit words
  whose arithmetic wraps around.

  The embedding is sequential: a function of the source is a function from the state of
  the coordinator to an outcome and the new state. The \<open>assert\<close>s of the source are
  compiled in (no \<open>NDEBUG\<close>), so a failed one ends the call. The short critical sections
  under \<open>_regions_lock\<close> are single steps, and a failed allocation of a region is left out.
  The members \<open>_regions\<close> and \<open>_region_size\<close> are the fields \<open>m_regions\<close> and
  \<open>region_size\<close>, and a parameter \<open>length\<close> is written \<open>len\<close>.
\<close>

type_synonym u64 = "64 word"

text \<open>
  The mutex of a region is a \<open>std::shared_timed_mutex\<close> of the C++ standard library. The model
  keeps what the calls of \<open>range_lock\<close> can observe of it: whether it is free, owned exclusively,
  or owned in shared mode by a number of holders. It does not record which thread owns it.
\<close>

datatype mutex_state = Unlocked | Locked_exclusive | Locked_shared nat

record region =
  refcount :: u64
  mutex :: mutex_state

record range_lock =
  m_regions :: "u64 \<rightharpoonup> region"
  region_size :: u64

text \<open>
  The ways a call can end other than by returning: an \<open>assert\<close> of the source fails and the
  process aborts (one constructor per \<open>assert\<close>), the calling thread blocks on a mutex that
  is held, the operation given to \<open>with_lock\<close> throws, or the behaviour is undefined in C++
  (signed overflow of the loop counter, unlocking a mutex that is not held in that mode).
\<close>

datatype assertion =
    Region_size_positive
  | Region_size_power_of_two
  | Region_exists
  | Region_is_locked
  | Unlock_region_exists
  | Offset_aligned
  | Length_aligned
  | Length_multiple
  | Length_positive
  | No_overflow

datatype stop = Assertion_failed assertion | Blocked | Exception | Undefined_behaviour

type_synonym 'a result = "stop + 'a"

datatype stop_iteration = no | yes

section \<open>The mutex operations used by \<open>range_lock\<close>\<close>

text \<open>
  \<open>lock\<close> and \<open>lock_shared\<close> on a mutex that is held in a conflicting mode do not return:
  the caller blocks. \<open>try_lock\<close> and \<open>try_lock_shared\<close> succeed exactly when the blocking
  call would return (the spurious failure the standard allows is left out). Unlocking a
  mutex that is not held in that mode is undefined behaviour.
\<close>

definition mutex_lock :: "mutex_state \<Rightarrow> mutex_state result" where
  "mutex_lock m = (case m of Unlocked \<Rightarrow> Inr Locked_exclusive | _ \<Rightarrow> Inl Blocked)"

definition mutex_try_lock :: "mutex_state \<Rightarrow> bool \<times> mutex_state" where
  "mutex_try_lock m = (case m of Unlocked \<Rightarrow> (True, Locked_exclusive) | _ \<Rightarrow> (False, m))"

definition mutex_unlock :: "mutex_state \<Rightarrow> mutex_state result" where
  "mutex_unlock m = (case m of Locked_exclusive \<Rightarrow> Inr Unlocked | _ \<Rightarrow> Inl Undefined_behaviour)"

definition mutex_lock_shared :: "mutex_state \<Rightarrow> mutex_state result" where
  "mutex_lock_shared m =
     (case m of Unlocked \<Rightarrow> Inr (Locked_shared 1)
      | Locked_shared n \<Rightarrow> Inr (Locked_shared (Suc n))
      | Locked_exclusive \<Rightarrow> Inl Blocked)"

definition mutex_try_lock_shared :: "mutex_state \<Rightarrow> bool \<times> mutex_state" where
  "mutex_try_lock_shared m =
     (case m of Unlocked \<Rightarrow> (True, Locked_shared 1)
      | Locked_shared n \<Rightarrow> (True, Locked_shared (Suc n))
      | Locked_exclusive \<Rightarrow> (False, m))"

definition mutex_unlock_shared :: "mutex_state \<Rightarrow> mutex_state result" where
  "mutex_unlock_shared m =
     (case m of Locked_shared n \<Rightarrow> Inr (if n \<le> 1 then Unlocked else Locked_shared (n - 1))
      | _ \<Rightarrow> Inl Undefined_behaviour)"

section \<open>Construction\<close>

text \<open>
  \<^verbatim>\<open>range_lock(uint64_t region_size) : _region_size(region_size) {
      assert(region_size > 0);
      assert((region_size & (region_size - 1)) == 0); }\<close>
  \<open>create_range_lock\<close>, which derives a region size from a resource size in floating
  point and then calls this constructor, is not part of the model.
\<close>

definition new_range_lock :: "u64 \<Rightarrow> range_lock result" where
  "new_range_lock rs =
     (if \<not> rs > 0 then Inl (Assertion_failed Region_size_positive)
      else if \<not> (rs AND (rs - 1)) = 0 then Inl (Assertion_failed Region_size_power_of_two)
      else Inr \<lparr>m_regions = Map.empty, region_size = rs\<rparr>)"

section \<open>The region table\<close>

text \<open>
  The three private functions that touch \<open>_regions\<close>. Each runs under the table's own
  \<open>std::lock_guard\<close>, so it is one atomic step on the table. The source returns a reference to
  the region; the model returns the region and the callers write the changed mutex back at
  the same id.
\<close>

definition get_locked_region :: "u64 \<Rightarrow> range_lock \<Rightarrow> region result" where
  "get_locked_region region_id s =
     (case m_regions s region_id of
        None \<Rightarrow> Inl (Assertion_failed Region_exists)
      | Some r \<Rightarrow> if refcount r > 0 then Inr r else Inl (Assertion_failed Region_is_locked))"

definition get_and_lock_region :: "u64 \<Rightarrow> range_lock \<Rightarrow> region \<times> range_lock" where
  "get_and_lock_region region_id s =
     (let r = (case m_regions s region_id of
                 None \<Rightarrow> \<lparr>refcount = 0, mutex = Unlocked\<rparr>
               | Some r \<Rightarrow> r);
          r' = r\<lparr>refcount := refcount r + 1\<rparr>
      in (r', s\<lparr>m_regions := (m_regions s)(region_id \<mapsto> r')\<rparr>))"

definition unlock_region :: "u64 \<Rightarrow> range_lock \<Rightarrow> unit result \<times> range_lock" where
  "unlock_region region_id s =
     (case m_regions s region_id of
        None \<Rightarrow> (Inl (Assertion_failed Unlock_region_exists), s)
      | Some r \<Rightarrow>
          (let r' = r\<lparr>refcount := refcount r - 1\<rparr>
           in if refcount r' = 0
              then (Inr (), s\<lparr>m_regions := (m_regions s)(region_id := None)\<rparr>)
              else (Inr (), s\<lparr>m_regions := (m_regions s)(region_id \<mapsto> r')\<rparr>)))"

definition set_mutex :: "u64 \<Rightarrow> mutex_state \<Rightarrow> range_lock \<Rightarrow> range_lock" where
  "set_mutex region_id m s =
     (case m_regions s region_id of
        None \<Rightarrow> s
      | Some r \<Rightarrow> s\<lparr>m_regions := (m_regions s)(region_id \<mapsto> r\<lparr>mutex := m\<rparr>)\<rparr>)"

section \<open>Iterating over the regions of a request\<close>

definition get_region_id :: "u64 \<Rightarrow> u64 \<Rightarrow> u64" where
  "get_region_id rs offset = offset div rs"

text \<open>
  The loop of \<open>do_for_each_region\<close>:
  \<^verbatim>\<open>for (auto i = 0; i < regions; i++) {
      auto current_offset = offset + (i * _region_size);
      stop_iteration stop = f(get_region_id(current_offset));
      if (stop == stop_iteration::yes) { return; } }\<close>
  The counter \<open>i\<close> is an \<open>int\<close> (the type of \<open>0\<close>); it is converted to \<open>uint64_t\<close> in the
  comparison and in the product. Incrementing it at \<open>INT_MAX\<close> is undefined behaviour.
  The callback \<open>f\<close> works on a state of its own (what the lambda captures) and may itself stop
  the call.
\<close>

definition INT_MAX :: nat where
  "INT_MAX = 2147483647"

function for_loop ::
  "u64 \<Rightarrow> u64 \<Rightarrow> u64 \<Rightarrow> (u64 \<Rightarrow> 's \<Rightarrow> stop_iteration result \<times> 's) \<Rightarrow> nat \<Rightarrow> 's \<Rightarrow> unit result \<times> 's"
where
  "for_loop rs offset regions f i s =
     (if (of_nat i :: u64) < regions then
        (let current_offset = offset + (of_nat i * rs)
         in case f (get_region_id rs current_offset) s of
              (Inl e, s') \<Rightarrow> (Inl e, s')
            | (Inr yes, s') \<Rightarrow> (Inr (), s')
            | (Inr no, s') \<Rightarrow>
                if i < INT_MAX then for_loop rs offset regions f (Suc i) s'
                else (Inl Undefined_behaviour, s'))
      else (Inr (), s))"
  by pat_completeness auto
termination
  by (relation "measure (\<lambda>(rs, offset, regions, f, i, s). INT_MAX - i)") auto

declare for_loop.simps [simp del]

text \<open>
  \<open>do_for_each_region\<close> asserts the alignment of what it is given, divides the length by
  the region size (a division by zero being undefined behaviour), asserts that nothing
  remains, and runs the loop.
\<close>

definition do_for_each_region ::
  "u64 \<Rightarrow> u64 \<Rightarrow> u64 \<Rightarrow> (u64 \<Rightarrow> 's \<Rightarrow> stop_iteration result \<times> 's) \<Rightarrow> 's \<Rightarrow> unit result \<times> 's"
where
  "do_for_each_region rs offset len f s =
     (if \<not> (offset AND (rs - 1)) = 0 then (Inl (Assertion_failed Offset_aligned), s)
      else if \<not> (len AND (rs - 1)) = 0 then (Inl (Assertion_failed Length_aligned), s)
      else if rs = 0 then (Inl Undefined_behaviour, s)
      else (let regions = len div rs
            in if \<not> len mod rs = 0 then (Inl (Assertion_failed Length_multiple), s)
               else for_loop rs offset regions f 0 s))"

definition for_each_region ::
  "u64 \<Rightarrow> u64 \<Rightarrow> u64 \<Rightarrow> (u64 \<Rightarrow> 's \<Rightarrow> stop_iteration result \<times> 's) \<Rightarrow> 's \<Rightarrow> unit result \<times> 's"
where
  "for_each_region rs offset len f s =
     (let aligned_down_offset = offset AND NOT (rs - 1);
          aligned_up_length = (len + rs - 1) AND NOT (rs - 1)
      in do_for_each_region rs aligned_down_offset aligned_up_length f s)"

definition validate_parameters :: "u64 \<Rightarrow> u64 \<Rightarrow> unit result" where
  "validate_parameters offset len =
     (if \<not> len > 0 then Inl (Assertion_failed Length_positive)
      else if \<not> offset < offset + len then Inl (Assertion_failed No_overflow)
      else Inr ())"

section \<open>Exclusive ownership\<close>

text \<open>
  \<^verbatim>\<open>void lock(uint64_t offset, uint64_t length) {
      validate_parameters(offset, length);
      for_each_region(offset, length, [this] (uint64_t region_id) {
          region& r = this->get_and_lock_region(region_id);
          r.mutex.lock();
          return stop_iteration::no; }); }\<close>
\<close>

definition lock_lambda :: "u64 \<Rightarrow> range_lock \<Rightarrow> stop_iteration result \<times> range_lock" where
  "lock_lambda region_id s =
     (let (r, s1) = get_and_lock_region region_id s
      in case mutex_lock (mutex r) of
           Inl e \<Rightarrow> (Inl e, s1)
         | Inr m \<Rightarrow> (Inr no, set_mutex region_id m s1))"

definition lock :: "u64 \<Rightarrow> u64 \<Rightarrow> range_lock \<Rightarrow> unit result \<times> range_lock" where
  "lock offset len s =
     (case validate_parameters offset len of
        Inl e \<Rightarrow> (Inl e, s)
      | Inr _ \<Rightarrow> for_each_region (region_size s) offset len lock_lambda s)"

text \<open>
  The two lambdas of \<open>try_lock\<close>. \<open>try_lock_f\<close> counts the caller in before it tries the
  mutex; \<open>unlock_f\<close> releases one region: the two assertions of \<open>get_locked_region\<close>, the
  mutex, then the count.
\<close>

definition try_lock_f :: "u64 \<Rightarrow> range_lock \<Rightarrow> bool \<times> range_lock" where
  "try_lock_f region_id s =
     (let (r, s1) = get_and_lock_region region_id s;
          (acquired, m) = mutex_try_lock (mutex r)
      in (acquired, set_mutex region_id m s1))"

definition unlock_f :: "u64 \<Rightarrow> range_lock \<Rightarrow> unit result \<times> range_lock" where
  "unlock_f region_id s =
     (case get_locked_region region_id s of
        Inl e \<Rightarrow> (Inl e, s)
      | Inr r \<Rightarrow>
          (case mutex_unlock (mutex r) of
             Inl e \<Rightarrow> (Inl e, s)
           | Inr m \<Rightarrow> unlock_region region_id (set_mutex region_id m s)))"

text \<open>
  \<open>generic_try_lock\<close>: the lambda given to \<open>for_each_region\<close> captures the coordinator and
  the locals \<open>locked_region_ids\<close> and \<open>failed_to_lock_region\<close> by reference, so its state
  is the triple of them. After the iteration, a failed attempt unlocks the ids of
  \<open>locked_region_ids\<close> in the order they were pushed.
\<close>

definition try_lambda ::
  "(u64 \<Rightarrow> range_lock \<Rightarrow> bool \<times> range_lock) \<Rightarrow> u64 \<Rightarrow> range_lock \<times> u64 list \<times> bool
     \<Rightarrow> stop_iteration result \<times> range_lock \<times> u64 list \<times> bool"
where
  "try_lambda try_lock region_id st =
     (case st of (s, locked_region_ids, failed_to_lock_region) \<Rightarrow>
        (let (acquired, s1) = try_lock region_id s
         in if acquired then (Inr no, (s1, locked_region_ids @ [region_id], failed_to_lock_region))
            else (Inr yes, (s1, locked_region_ids, True))))"

fun unlock_each ::
  "(u64 \<Rightarrow> range_lock \<Rightarrow> unit result \<times> range_lock) \<Rightarrow> u64 list \<Rightarrow> range_lock
     \<Rightarrow> unit result \<times> range_lock"
where
  "unlock_each unlock [] s = (Inr (), s)"
| "unlock_each unlock (region_id # ids) s =
     (case unlock region_id s of
        (Inl e, s') \<Rightarrow> (Inl e, s')
      | (Inr _, s') \<Rightarrow> unlock_each unlock ids s')"

definition generic_try_lock ::
  "u64 \<Rightarrow> u64 \<Rightarrow> (u64 \<Rightarrow> range_lock \<Rightarrow> bool \<times> range_lock)
     \<Rightarrow> (u64 \<Rightarrow> range_lock \<Rightarrow> unit result \<times> range_lock) \<Rightarrow> range_lock
     \<Rightarrow> bool result \<times> range_lock"
where
  "generic_try_lock offset len try_lock unlock s =
     (case validate_parameters offset len of
        Inl e \<Rightarrow> (Inl e, s)
      | Inr _ \<Rightarrow>
          (case for_each_region (region_size s) offset len (try_lambda try_lock) (s, [], False) of
             (Inl e, (s1, locked_region_ids, failed_to_lock_region)) \<Rightarrow> (Inl e, s1)
           | (Inr _, (s1, locked_region_ids, failed_to_lock_region)) \<Rightarrow>
               if failed_to_lock_region then
                 (case unlock_each unlock locked_region_ids s1 of
                    (Inl e, s2) \<Rightarrow> (Inl e, s2)
                  | (Inr _, s2) \<Rightarrow> (Inr (\<not> failed_to_lock_region), s2))
               else (Inr (\<not> failed_to_lock_region), s1)))"

definition try_lock :: "u64 \<Rightarrow> u64 \<Rightarrow> range_lock \<Rightarrow> bool result \<times> range_lock" where
  "try_lock offset len s = generic_try_lock offset len try_lock_f unlock_f s"

text \<open>
  \<open>unlock\<close>: its lambda runs the statements of \<open>unlock_f\<close> and returns
  \<open>stop_iteration::no\<close>.
\<close>

definition unlock_lambda :: "u64 \<Rightarrow> range_lock \<Rightarrow> stop_iteration result \<times> range_lock" where
  "unlock_lambda region_id s =
     (case unlock_f region_id s of
        (Inl e, s') \<Rightarrow> (Inl e, s')
      | (Inr _, s') \<Rightarrow> (Inr no, s'))"

definition unlock :: "u64 \<Rightarrow> u64 \<Rightarrow> range_lock \<Rightarrow> unit result \<times> range_lock" where
  "unlock offset len s =
     (case validate_parameters offset len of
        Inl e \<Rightarrow> (Inl e, s)
      | Inr _ \<Rightarrow> for_each_region (region_size s) offset len unlock_lambda s)"

text \<open>
  \<^verbatim>\<open>void with_lock(uint64_t offset, uint64_t length, Func&& func) {
      lock(offset, length);
      func();
      unlock(offset, length); }\<close>
  The operation \<open>func\<close> is given the coordinator's state and either returns or ends the call
  (it throws: \<open>Inl Exception\<close>); nothing in \<open>with_lock\<close> catches.
\<close>

definition with_lock ::
  "u64 \<Rightarrow> u64 \<Rightarrow> (range_lock \<Rightarrow> unit result \<times> range_lock) \<Rightarrow> range_lock
     \<Rightarrow> unit result \<times> range_lock"
where
  "with_lock offset len func s =
     (case lock offset len s of
        (Inl e, s1) \<Rightarrow> (Inl e, s1)
      | (Inr _, s1) \<Rightarrow>
          (case func s1 of
             (Inl e, s2) \<Rightarrow> (Inl e, s2)
           | (Inr _, s2) \<Rightarrow> unlock offset len s2))"

section \<open>Shared ownership\<close>

text \<open>
  The functions compiled when \<open>__cplusplus >= 201402L\<close>: the same protocol on the shared
  operations of the mutex.
\<close>

definition lock_shared_lambda :: "u64 \<Rightarrow> range_lock \<Rightarrow> stop_iteration result \<times> range_lock" where
  "lock_shared_lambda region_id s =
     (let (r, s1) = get_and_lock_region region_id s
      in case mutex_lock_shared (mutex r) of
           Inl e \<Rightarrow> (Inl e, s1)
         | Inr m \<Rightarrow> (Inr no, set_mutex region_id m s1))"

definition lock_shared :: "u64 \<Rightarrow> u64 \<Rightarrow> range_lock \<Rightarrow> unit result \<times> range_lock" where
  "lock_shared offset len s =
     (case validate_parameters offset len of
        Inl e \<Rightarrow> (Inl e, s)
      | Inr _ \<Rightarrow> for_each_region (region_size s) offset len lock_shared_lambda s)"

definition try_lock_shared_f :: "u64 \<Rightarrow> range_lock \<Rightarrow> bool \<times> range_lock" where
  "try_lock_shared_f region_id s =
     (let (r, s1) = get_and_lock_region region_id s;
          (acquired, m) = mutex_try_lock_shared (mutex r)
      in (acquired, set_mutex region_id m s1))"

definition unlock_shared_f :: "u64 \<Rightarrow> range_lock \<Rightarrow> unit result \<times> range_lock" where
  "unlock_shared_f region_id s =
     (case get_locked_region region_id s of
        Inl e \<Rightarrow> (Inl e, s)
      | Inr r \<Rightarrow>
          (case mutex_unlock_shared (mutex r) of
             Inl e \<Rightarrow> (Inl e, s)
           | Inr m \<Rightarrow> unlock_region region_id (set_mutex region_id m s)))"

definition try_lock_shared :: "u64 \<Rightarrow> u64 \<Rightarrow> range_lock \<Rightarrow> bool result \<times> range_lock" where
  "try_lock_shared offset len s = generic_try_lock offset len try_lock_shared_f unlock_shared_f s"

definition unlock_shared_lambda :: "u64 \<Rightarrow> range_lock \<Rightarrow> stop_iteration result \<times> range_lock" where
  "unlock_shared_lambda region_id s =
     (case unlock_shared_f region_id s of
        (Inl e, s') \<Rightarrow> (Inl e, s')
      | (Inr _, s') \<Rightarrow> (Inr no, s'))"

definition unlock_shared :: "u64 \<Rightarrow> u64 \<Rightarrow> range_lock \<Rightarrow> unit result \<times> range_lock" where
  "unlock_shared offset len s =
     (case validate_parameters offset len of
        Inl e \<Rightarrow> (Inl e, s)
      | Inr _ \<Rightarrow> for_each_region (region_size s) offset len unlock_shared_lambda s)"

definition with_lock_shared ::
  "u64 \<Rightarrow> u64 \<Rightarrow> (range_lock \<Rightarrow> unit result \<times> range_lock) \<Rightarrow> range_lock
     \<Rightarrow> unit result \<times> range_lock"
where
  "with_lock_shared offset len func s =
     (case lock_shared offset len s of
        (Inl e, s1) \<Rightarrow> (Inl e, s1)
      | (Inr _, s1) \<Rightarrow>
          (case func s1 of
             (Inl e, s2) \<Rightarrow> (Inl e, s2)
           | (Inr _, s2) \<Rightarrow> unlock_shared offset len s2))"

text \<open>
  Compiled with \<open>__cplusplus < 201402L\<close>, the mutex is a \<open>std::mutex\<close> and the four
  functions for shared ownership call the ones for exclusive ownership, so that what holds
  of the exclusive operations holds of them.
\<close>

definition lock_shared_cxx11 :: "u64 \<Rightarrow> u64 \<Rightarrow> range_lock \<Rightarrow> unit result \<times> range_lock" where
  "lock_shared_cxx11 offset len s = lock offset len s"

definition try_lock_shared_cxx11 :: "u64 \<Rightarrow> u64 \<Rightarrow> range_lock \<Rightarrow> bool result \<times> range_lock" where
  "try_lock_shared_cxx11 offset len s = try_lock offset len s"

definition unlock_shared_cxx11 :: "u64 \<Rightarrow> u64 \<Rightarrow> range_lock \<Rightarrow> unit result \<times> range_lock" where
  "unlock_shared_cxx11 offset len s = unlock offset len s"

definition with_lock_shared_cxx11 ::
  "u64 \<Rightarrow> u64 \<Rightarrow> (range_lock \<Rightarrow> unit result \<times> range_lock) \<Rightarrow> range_lock
     \<Rightarrow> unit result \<times> range_lock"
where
  "with_lock_shared_cxx11 offset len func s = with_lock offset len func s"

section \<open>The sequence of region ids visited by a request\<close>

text \<open>
  Running a callback over a list of ids, in order, until it stops the iteration or the call:
  what the loop of \<open>do_for_each_region\<close> does with the ids it computes. \<open>iterate\<close> adds the
  end of the loop: after the last id the call returns, unless the counter has reached
  \<open>INT_MAX\<close> with regions still to visit.
\<close>

fun each :: "('a \<Rightarrow> 's \<Rightarrow> stop_iteration result \<times> 's) \<Rightarrow> 'a list \<Rightarrow> 's \<Rightarrow> stop_iteration result \<times> 's" where
  "each f [] s = (Inr no, s)"
| "each f (x # xs) s =
     (case f x s of
        (Inl e, s') \<Rightarrow> (Inl e, s')
      | (Inr yes, s') \<Rightarrow> (Inr yes, s')
      | (Inr no, s') \<Rightarrow> each f xs s')"

definition iterate ::
  "('a \<Rightarrow> 's \<Rightarrow> stop_iteration result \<times> 's) \<Rightarrow> 'a list \<Rightarrow> bool \<Rightarrow> 's \<Rightarrow> unit result \<times> 's"
where
  "iterate f ids overflow s =
     (case each f ids s of
        (Inl e, s') \<Rightarrow> (Inl e, s')
      | (Inr yes, s') \<Rightarrow> (Inr (), s')
      | (Inr no, s') \<Rightarrow> if overflow then (Inl Undefined_behaviour, s') else (Inr (), s'))"

text \<open>
  The ids a request visits are read off the source by running \<open>for_each_region\<close> with a
  callback that appends each id it is given to a list and never stops. \<open>region_count\<close> is
  the local \<open>regions\<close> of \<open>do_for_each_region\<close> as \<open>for_each_region\<close> calls it.
\<close>

definition record_id :: "u64 \<Rightarrow> u64 list \<Rightarrow> stop_iteration result \<times> u64 list" where
  "record_id region_id visited = (Inr no, visited @ [region_id])"

definition visited_ids :: "u64 \<Rightarrow> u64 \<Rightarrow> u64 \<Rightarrow> u64 list" where
  "visited_ids rs offset len = snd (for_each_region rs offset len record_id [])"

definition region_count :: "u64 \<Rightarrow> u64 \<Rightarrow> nat" where
  "region_count rs len = unat (((len + rs - 1) AND NOT (rs - 1)) div rs)"

text \<open>
  A request is accepted when \<open>validate_parameters\<close> lets it through, and a region size when
  the constructor does.
\<close>

definition accepted :: "u64 \<Rightarrow> u64 \<Rightarrow> bool" where
  "accepted offset len = (validate_parameters offset len = Inr ())"

definition valid_region_size :: "u64 \<Rightarrow> bool" where
  "valid_region_size rs = (case new_range_lock rs of Inl _ \<Rightarrow> False | Inr _ \<Rightarrow> True)"

definition validation_failure :: "stop \<Rightarrow> bool" where
  "validation_failure e = (e = Assertion_failed Length_positive \<or> e = Assertion_failed No_overflow)"

text \<open>
  The region ids of a request as the specification words them: the request widened to
  \<open>[align_down(offset), align_up(offset + length))\<close>, and the consecutive ids from
  \<open>align_down(offset) / region_size\<close> through \<open>(align_up(offset + length) - 1) / region_size\<close>.
  This is the reading the source is compared with, on unbounded numbers.
\<close>

definition align_down :: "nat \<Rightarrow> nat \<Rightarrow> nat" where
  "align_down rs x = (x div rs) * rs"

definition align_up :: "nat \<Rightarrow> nat \<Rightarrow> nat" where
  "align_up rs x = ((x + rs - 1) div rs) * rs"

definition widened_region_ids :: "u64 \<Rightarrow> u64 \<Rightarrow> u64 \<Rightarrow> u64 list" where
  "widened_region_ids rs offset len =
     map of_nat [align_down (unat rs) (unat offset) div unat rs
                 ..< Suc ((align_up (unat rs) (unat offset + unat len) - 1) div unat rs)]"

text \<open>
  Two coordinators used in the examples: a new one with regions of 1024 bytes, and the same
  after one caller has locked \<open>(0, 1)\<close>, which holds region 0.
\<close>

definition fresh_1024 :: range_lock where
  "fresh_1024 = \<lparr>m_regions = Map.empty, region_size = 1024\<rparr>"

definition region0_held :: range_lock where
  "region0_held =
     \<lparr>m_regions = [0 \<mapsto> \<lparr>refcount = 1, mutex = Locked_exclusive\<rparr>], region_size = 1024\<rparr>"

section \<open>Reference counts and the region table\<close>

text \<open>
  The count the table holds for a region id, 0 for an id with no entry, and the invariant
  of the table: an entry exists only with a positive count (an id without an entry has no
  count at all, so this is "in the table if and only if the count is positive").
\<close>

definition refcount_of :: "range_lock \<Rightarrow> u64 \<Rightarrow> u64" where
  "refcount_of s region_id = (case m_regions s region_id of None \<Rightarrow> 0 | Some r \<Rightarrow> refcount r)"

definition table_ok :: "range_lock \<Rightarrow> bool" where
  "table_ok s = (\<forall>region_id r. m_regions s region_id = Some r \<longrightarrow> 0 < refcount r)"

text \<open>
  What a call does to the counts, as a relation between the state before and after:
  \<open>acquired A\<close> counts one more holder into every region of \<open>A\<close>, creating the missing
  entries; \<open>released A\<close> counts one holder out of every region of \<open>A\<close>, which all had an
  entry with a positive count, and erases the entries whose count was 1. Both leave the
  other regions and the region size alone.
\<close>

definition acquired :: "u64 set \<Rightarrow> range_lock \<Rightarrow> range_lock \<Rightarrow> bool" where
  "acquired A s s' =
     (region_size s' = region_size s
      \<and> (\<forall>y. y \<notin> A \<longrightarrow> m_regions s' y = m_regions s y)
      \<and> (\<forall>x\<in>A. m_regions s' x \<noteq> None \<and> refcount_of s' x = refcount_of s x + 1))"

definition released :: "u64 set \<Rightarrow> range_lock \<Rightarrow> range_lock \<Rightarrow> bool" where
  "released A s s' =
     (region_size s' = region_size s
      \<and> (\<forall>y. y \<notin> A \<longrightarrow> m_regions s' y = m_regions s y)
      \<and> (\<forall>x\<in>A. m_regions s x \<noteq> None \<and> refcount_of s x \<noteq> 0
             \<and> refcount_of s' x = refcount_of s x - 1
             \<and> (m_regions s' x = None) = (refcount_of s x = 1)))"

text \<open>
  \<open>bounded n\<close>: the invariant with a bound on the counts, which rules out the wrap-around
  of a \<open>uint64_t\<close> count; \<open>keeps n\<close> is what one call preserves.
\<close>

definition bounded :: "nat \<Rightarrow> range_lock \<Rightarrow> bool" where
  "bounded n s = (\<forall>region_id r. m_regions s region_id = Some r \<longrightarrow> 0 < refcount r \<and> unat (refcount r) \<le> n)"

definition keeps :: "nat \<Rightarrow> range_lock \<Rightarrow> range_lock \<Rightarrow> bool" where
  "keeps n s s' = (bounded (Suc n) s' \<and> region_size s' = region_size s)"

text \<open>
  The state after locking the free regions \<open>ids\<close>: each has the entry \<open>v\<close>.
\<close>

definition taken :: "u64 list \<Rightarrow> region \<Rightarrow> range_lock \<Rightarrow> range_lock" where
  "taken ids v s = s\<lparr>m_regions := (\<lambda>x. if x \<in> set ids then Some v else m_regions s x)\<rparr>"

section \<open>Sequences of calls\<close>

text \<open>
  The public operations as values, to speak of what a coordinator goes through over its
  life. The flag of \<open>With_lock\<close> says whether the operation given to it throws; the
  operation does not touch the coordinator. \<open>perform\<close> runs one call: \<open>Inr True\<close> when
  it returns (for the \<open>try\<close> calls: returns true), \<open>Inr False\<close> when a \<open>try\<close> call
  returns false.
\<close>

datatype call =
    Lock u64 u64 | Try_lock u64 u64 | Unlock u64 u64 | With_lock u64 u64 bool
  | Lock_shared u64 u64 | Try_lock_shared u64 u64 | Unlock_shared u64 u64
  | With_lock_shared u64 u64 bool

definition func_of :: "bool \<Rightarrow> range_lock \<Rightarrow> unit result \<times> range_lock" where
  "func_of throws s = (if throws then (Inl Exception, s) else (Inr (), s))"

definition returned :: "unit result \<times> range_lock \<Rightarrow> bool result \<times> range_lock" where
  "returned rs = (case rs of (Inl e, s) \<Rightarrow> (Inl e, s) | (Inr _, s) \<Rightarrow> (Inr True, s))"

fun perform :: "call \<Rightarrow> range_lock \<Rightarrow> bool result \<times> range_lock" where
  "perform (Lock offset len) s = returned (lock offset len s)"
| "perform (Try_lock offset len) s = try_lock offset len s"
| "perform (Unlock offset len) s = returned (unlock offset len s)"
| "perform (With_lock offset len throws) s = returned (with_lock offset len (func_of throws) s)"
| "perform (Lock_shared offset len) s = returned (lock_shared offset len s)"
| "perform (Try_lock_shared offset len) s = try_lock_shared offset len s"
| "perform (Unlock_shared offset len) s = returned (unlock_shared offset len s)"
| "perform (With_lock_shared offset len throws) s =
     returned (with_lock_shared offset len (func_of throws) s)"

text \<open>
  \<open>run\<close> is the coordinator after a sequence of calls, each run to its end in turn. A
  failed assertion aborts the process, and after undefined behaviour nothing is known: the
  sequence ends there. A call that blocks or lets an exception through leaves the
  coordinator to the calls of the other callers, which follow. A \<open>with_lock\<close> whose
  operation itself calls the coordinator is the sequence of its \<open>lock\<close>, those calls and
  its \<open>unlock\<close>.
\<close>

fun run :: "call list \<Rightarrow> range_lock \<Rightarrow> range_lock" where
  "run [] s = s"
| "run (c # cs) s =
     (case perform c s of
        (Inl (Assertion_failed a), s') \<Rightarrow> s'
      | (Inl Undefined_behaviour, s') \<Rightarrow> s'
      | (_, s') \<Rightarrow> run cs s')"

text \<open>
  \<open>run_all\<close> is the coordinator after a sequence in which every call returned and every
  \<open>try\<close> call returned true. \<open>balanced\<close> says that every release in the sequence is of a
  request (same mode, offset and length) acquired before and not yet released, and that
  nothing is left acquired at the end; the list \<open>held\<close> is what is acquired so far.
\<close>

fun balanced_from :: "(bool \<times> u64 \<times> u64) list \<Rightarrow> call list \<Rightarrow> bool" where
  "balanced_from held [] = (held = [])"
| "balanced_from held (Lock offset len # cs) = balanced_from ((False, offset, len) # held) cs"
| "balanced_from held (Try_lock offset len # cs) = balanced_from ((False, offset, len) # held) cs"
| "balanced_from held (Unlock offset len # cs) =
     ((False, offset, len) \<in> set held \<and> balanced_from (remove1 (False, offset, len) held) cs)"
| "balanced_from held (With_lock offset len throws # cs) = (\<not> throws \<and> balanced_from held cs)"
| "balanced_from held (Lock_shared offset len # cs) = balanced_from ((True, offset, len) # held) cs"
| "balanced_from held (Try_lock_shared offset len # cs) = balanced_from ((True, offset, len) # held) cs"
| "balanced_from held (Unlock_shared offset len # cs) =
     ((True, offset, len) \<in> set held \<and> balanced_from (remove1 (True, offset, len) held) cs)"
| "balanced_from held (With_lock_shared offset len throws # cs) = (\<not> throws \<and> balanced_from held cs)"

definition balanced :: "call list \<Rightarrow> bool" where
  "balanced cs = balanced_from [] cs"

fun run_all :: "call list \<Rightarrow> range_lock \<Rightarrow> range_lock option" where
  "run_all [] s = Some s"
| "run_all (c # cs) s =
     (case perform c s of
        (Inr True, s') \<Rightarrow> run_all cs s'
      | _ \<Rightarrow> None)"

text \<open>
  The number of requests of \<open>held\<close> that cover a region, and the invariant that the
  table counts exactly them.
\<close>

definition covers :: "u64 \<Rightarrow> u64 \<Rightarrow> bool \<times> u64 \<times> u64 \<Rightarrow> bool" where
  "covers rs region_id h = (case h of (shared, offset, len) \<Rightarrow> region_id \<in> set (visited_ids rs offset len))"

definition holders :: "u64 \<Rightarrow> (bool \<times> u64 \<times> u64) list \<Rightarrow> u64 \<Rightarrow> nat" where
  "holders rs held region_id = length (filter (covers rs region_id) held)"

definition counts :: "(bool \<times> u64 \<times> u64) list \<Rightarrow> range_lock \<Rightarrow> bool" where
  "counts held s =
     (table_ok s \<and> (\<forall>region_id. refcount_of s region_id = of_nat (holders (region_size s) held region_id)))"

section \<open>Word arithmetic of the alignment\<close>

lemma pow2_nat: "0 < (n::nat) \<Longrightarrow> n AND (n - 1) = 0 \<Longrightarrow> \<exists>p. n = 2 ^ p"
proof (induction n rule: less_induct)
  case (less n)
  show ?case
  proof (cases "even n")
    case True
    then obtain m where m: "n = 2 * m" by (elim evenE)
    with less.prems have m0: "0 < m" by simp
    have "(n - 1) div 2 = m - 1" using m m0 by simp
    then have "n AND (n - 1) = 2 * (m AND (m - 1))"
      using and_rec [of n "n - 1"] m by simp
    with less.prems have "m AND (m - 1) = 0" by simp
    moreover have "m < n" using m m0 by simp
    ultimately obtain q where "m = 2 ^ q" using less.IH m0 by blast
    then have "n = 2 ^ Suc q" using m by simp
    then show ?thesis by blast
  next
    case False
    then obtain m where m: "n = 2 * m + 1" by (elim oddE)
    have "n AND (n - 1) = 2 * m"
      using and_rec [of n "n - 1"] m by simp
    with less.prems have "m = 0" by simp
    then have "n = 2 ^ 0" using m by simp
    then show ?thesis by blast
  qed
qed

lemma pow2_word:
  assumes "rs > 0" and "(rs :: 'a::len word) AND (rs - 1) = 0"
  shows "\<exists>p<LENGTH('a). rs = 2 ^ p"
proof -
  from assms(1) have nz: "rs \<noteq> 0" by auto
  then have "unat (rs - 1) = unat rs - 1" by (simp add: unat_minus_one)
  then have "unat rs AND (unat rs - 1) = unat (rs AND (rs - 1))"
    by (simp add: unsigned_and_eq)
  also have "\<dots> = 0" using assms(2) by simp
  finally have "unat rs AND (unat rs - 1) = 0" .
  moreover have "0 < unat rs" using nz by (simp add: unat_gt_0)
  ultimately obtain p where p: "unat rs = 2 ^ p" using pow2_nat by blast
  have "unat rs < 2 ^ LENGTH('a)" by (rule unsigned_less)
  with p have "p < LENGTH('a)" by simp
  moreover have "rs = 2 ^ p"
  proof -
    have "rs = of_nat (unat rs)" by simp
    also have "\<dots> = 2 ^ p" by (simp only: p) simp
    finally show ?thesis .
  qed
  ultimately show ?thesis by blast
qed

lemma valid_region_size_pow2: "valid_region_size rs \<Longrightarrow> \<exists>p<64. rs = 2 ^ p"
  using pow2_word [of rs] by (auto simp: valid_region_size_def new_range_lock_def split: if_splits)

lemma pow2_valid_region_size: "p < 64 \<Longrightarrow> valid_region_size (2 ^ p)"
proof -
  assume p: "p < 64"
  have "(2 ^ p :: u64) AND (2 ^ p - 1) = 0"
    by (simp flip: mask_eq_exp_minus_1) (rule bit_eqI, auto simp add: bit_simps)
  moreover have "(2 ^ p :: u64) > 0" using p by (simp add: word_gt_0)
  ultimately show ?thesis by (simp add: valid_region_size_def new_range_lock_def)
qed

lemma and_not_mask_eq: "(x :: 'a::len word) AND NOT (mask p) = push_bit p (drop_bit p x)"
  by (rule bit_eqI) (auto simp add: bit_simps)

lemma unat_and_not_mask: "unat ((x :: 'a::len word) AND NOT (mask p)) = (unat x div 2 ^ p) * 2 ^ p"
proof -
  have "(unat x div 2 ^ p) * 2 ^ p \<le> unat x" by simp
  then have lt: "(unat x div 2 ^ p) * 2 ^ p < 2 ^ LENGTH('a)"
    using unsigned_less [of x, where 'a = nat] by (rule le_less_trans)
  have "unat (push_bit p (drop_bit p x)) = take_bit LENGTH('a) (push_bit p (drop_bit p (unat x)))"
    by (simp only: unsigned_push_bit_eq unat_drop_bit_eq)
  also have "\<dots> = (unat x div 2 ^ p) * 2 ^ p"
    using lt by (simp add: push_bit_eq_mult drop_bit_eq_div take_bit_eq_mod)
  finally show ?thesis by (simp only: and_not_mask_eq)
qed

lemma and_not_and_self: "((x :: 'a::len word) AND NOT m) AND m = 0"
  by (simp add: and.assoc)

lemma and_mask_0_mod: "(x :: 'a::len word) AND mask p = 0 \<Longrightarrow> x mod 2 ^ p = 0"
  by (simp flip: take_bit_eq_mask add: take_bit_eq_mod)

lemma unat_2p: "p < 64 \<Longrightarrow> unat (2 ^ p :: u64) = 2 ^ p"
proof -
  assume p: "p < 64"
  have "(2 ^ p :: u64) = of_nat (2 ^ p)" by simp
  then have "unat (2 ^ p :: u64) = 2 ^ p mod 2 ^ 64" by (simp only: unat_of_nat) simp
  moreover have "(2::nat) ^ p < 2 ^ 64" using p by (intro power_strict_increasing) simp_all
  ultimately show ?thesis by simp
qed

lemma unat_2p_minus_1: "p < 64 \<Longrightarrow> unat (2 ^ p - 1 :: u64) = 2 ^ p - 1"
proof -
  assume p: "p < 64"
  then have "(2 ^ p :: u64) \<noteq> 0" by simp
  then have "unat (2 ^ p - 1 :: u64) = unat (2 ^ p :: u64) - 1" by (rule unat_minus_one)
  then show ?thesis using p by (simp only: unat_2p)
qed

lemma unat_div_2p: "p < 64 \<Longrightarrow> unat ((x :: u64) div 2 ^ p) = unat x div 2 ^ p"
  by (simp only: unat_div unat_2p)

lemma mult_le_pow:
  fixes q :: nat
  assumes "q * 2 ^ p < 2 ^ 64 + 2 ^ p" "p < 64"
  shows "q * 2 ^ p \<le> 2 ^ 64"
proof -
  have e: "(2::nat) ^ 64 = 2 ^ (64 - p) * 2 ^ p"
    using assms(2) by (simp flip: power_add)
  have "q * 2 ^ p < (2 ^ (64 - p) + 1) * 2 ^ p"
    using assms(1) by (simp only: e add_mult_distrib mult_1)
  then have "q < 2 ^ (64 - p) + 1" by (simp only: mult_less_cancel2)
  then have "q \<le> 2 ^ (64 - p)" by simp
  then have "q * 2 ^ p \<le> 2 ^ (64 - p) * 2 ^ p" by (rule mult_le_mono1)
  then show ?thesis by (simp only: e)
qed

lemma aligned_sum_le:
  fixes offset len :: u64
  assumes p: "p < 64" and v: "unat offset + unat len < 2 ^ 64"
  shows "unat (offset AND NOT (mask p)) + unat ((len + 2 ^ p - 1) AND NOT (mask p)) \<le> 2 ^ 64"
proof -
  let ?a = "unat offset div 2 ^ p * 2 ^ p"
  let ?s = "unat (len + 2 ^ p - 1)"
  let ?L = "?s div 2 ^ p * 2 ^ p"
  have a_le: "?a \<le> unat offset" by simp
  have p1: "(1::nat) \<le> 2 ^ p" by simp
  have s_eq: "?s = (unat len + 2 ^ p - 1) mod 2 ^ 64"
  proof -
    have "len + 2 ^ p - 1 = len + (2 ^ p - 1)" by simp
    then have "?s = (unat len + unat (2 ^ p - 1 :: u64)) mod 2 ^ 64"
      by (simp only: unat_word_ariths) simp
    also have "unat (2 ^ p - 1 :: u64) = 2 ^ p - 1"
      using p by (rule unat_2p_minus_1)
    also have "unat len + (2 ^ p - 1) = unat len + 2 ^ p - 1"
      using p1 by linarith
    finally show ?thesis .
  qed
  have "?a + ?L \<le> 2 ^ 64"
  proof (cases "unat len + 2 ^ p - 1 < 2 ^ 64")
    case True
    then have "?s = unat len + 2 ^ p - 1" using s_eq by simp
    moreover have "?L \<le> ?s" by simp
    ultimately have "?a + ?L \<le> unat offset + (unat len + 2 ^ p - 1)"
      using a_le by linarith
    also have "\<dots> < 2 ^ 64 + 2 ^ p" using v p1 by linarith
    finally have "(unat offset div 2 ^ p + ?s div 2 ^ p) * 2 ^ p < 2 ^ 64 + 2 ^ p"
      by (simp add: add_mult_distrib)
    then have "(unat offset div 2 ^ p + ?s div 2 ^ p) * 2 ^ p \<le> 2 ^ 64"
      using p by (rule mult_le_pow)
    then show ?thesis by (simp add: add_mult_distrib)
  next
    case False
    have "unat len < 2 ^ 64" using unsigned_less [of len, where 'a = nat] by simp
    with False have "unat len + 2 ^ p - 1 < 2 ^ 64 + 2 ^ 64"
      using p1 power_strict_increasing [of p 64 "2::nat"] p by linarith
    with False have "(unat len + 2 ^ p - 1) mod 2 ^ 64 = unat len + 2 ^ p - 1 - 2 ^ 64"
      by (simp add: mod_if)
    with s_eq have "?s < 2 ^ p" using \<open>unat len < 2 ^ 64\<close> p1 by linarith
    then have "?L = 0" by simp
    moreover have "unat offset < 2 ^ 64" using unsigned_less [of offset, where 'a = nat] by simp
    ultimately show ?thesis using a_le by linarith
  qed
  then show ?thesis by (simp only: unat_and_not_mask)
qed

section \<open>The loop as an iteration over a list\<close>

lemma of_nat_less_regions:
  "i \<le> INT_MAX \<Longrightarrow> ((of_nat i :: u64) < regions) = (i < unat regions)"
  by (simp add: word_less_nat_alt unat_of_nat INT_MAX_def)

lemma for_loop_iterate:
  "i \<le> INT_MAX \<Longrightarrow> i \<le> unat regions \<Longrightarrow>
   for_loop rs offset regions f i s =
   iterate f (map (\<lambda>k. get_region_id rs (offset + of_nat k * rs)) [i..<min (unat regions) (Suc INT_MAX)])
     (INT_MAX < unat regions) s"
proof (induction rs offset regions f i s rule: for_loop.induct)
  case (1 rs offset regions f i s)
  show ?case
  proof (cases "i < unat regions")
    case False
    with "1.prems" have "i = unat regions" by simp
    with "1.prems" show ?thesis
      by (subst for_loop.simps) (simp add: of_nat_less_regions iterate_def)
  next
    case True
    with "1.prems" have upt: "[i..<min (unat regions) (Suc INT_MAX)] = i # [Suc i..<min (unat regions) (Suc INT_MAX)]"
      by (simp add: upt_conv_Cons)
    obtain r s' where fr: "f (get_region_id rs (offset + of_nat i * rs)) s = (r, s')"
      by (cases "f (get_region_id rs (offset + of_nat i * rs)) s")
    show ?thesis
    proof (cases r)
      case (Inl e)
      with True "1.prems" fr show ?thesis
        by (subst for_loop.simps) (simp add: of_nat_less_regions iterate_def upt)
    next
      case (Inr st)
      show ?thesis
      proof (cases st)
        case yes
        with Inr True "1.prems" fr show ?thesis
          by (subst for_loop.simps) (simp add: of_nat_less_regions iterate_def upt)
      next
        case no
        show ?thesis
        proof (cases "i < INT_MAX")
          case lt: True
          have "for_loop rs offset regions f (Suc i) s' =
            iterate f (map (\<lambda>k. get_region_id rs (offset + of_nat k * rs)) [Suc i..<min (unat regions) (Suc INT_MAX)])
              (INT_MAX < unat regions) s'"
            using "1.IH" [OF _ refl _ refl refl lt, of s'] True lt "1.prems" fr Inr no
            by (simp add: of_nat_less_regions)
          with Inr no True lt "1.prems" fr show ?thesis
            by (subst for_loop.simps) (simp add: of_nat_less_regions iterate_def upt)
        next
          case ge: False
          with "1.prems" have "i = INT_MAX" by simp
          with Inr no True "1.prems" fr show ?thesis
            by (subst for_loop.simps) (simp add: of_nat_less_regions iterate_def upt)
        qed
      qed
    qed
  qed
qed

lemma unat_of_nat_small: "n < 2 ^ 64 \<Longrightarrow> unat (of_nat n :: u64) = n"
  by (simp add: unat_of_nat)

lemma region_id_step:
  fixes offset L :: u64
  assumes p: "p < 64"
    and le: "unat (offset AND NOT (mask p)) + unat L \<le> 2 ^ 64"
    and k: "k < unat L div 2 ^ p"
  shows "get_region_id (2 ^ p) ((offset AND NOT (mask p)) + of_nat k * 2 ^ p)
           = get_region_id (2 ^ p) offset + of_nat k"
    and "unat (get_region_id (2 ^ p) offset + of_nat k) = unat offset div 2 ^ p + k"
proof -
  let ?q = "unat offset div 2 ^ p"
  have a: "unat (offset AND NOT (mask p)) = ?q * 2 ^ p" by (rule unat_and_not_mask)
  from k have "Suc k * 2 ^ p \<le> unat L div 2 ^ p * 2 ^ p" by (intro mult_le_mono1) simp
  also have "\<dots> \<le> unat L" by simp
  finally have "?q * 2 ^ p + Suc k * 2 ^ p \<le> 2 ^ 64" using le a by linarith
  then have b: "(?q + k) * 2 ^ p + 2 ^ p \<le> 2 ^ 64" by (simp add: add_mult_distrib)
  have pos: "(0::nat) < 2 ^ p" by simp
  from b pos have lt: "(?q + k) * 2 ^ p < 2 ^ 64" by linarith
  have "?q + k \<le> (?q + k) * 2 ^ p" by simp
  with lt have lt2: "?q + k < 2 ^ 64" by linarith
  have "(offset AND NOT (mask p)) + of_nat k * 2 ^ p = (of_nat ((?q + k) * 2 ^ p) :: u64)"
  proof -
    have "offset AND NOT (mask p) = of_nat (unat (offset AND NOT (mask p)))" by simp
    also have "\<dots> = of_nat (?q * 2 ^ p)" by (simp only: a)
    finally show ?thesis by (simp add: add_mult_distrib)
  qed
  then have "unat ((offset AND NOT (mask p)) + of_nat k * 2 ^ p) = (?q + k) * 2 ^ p"
    using lt by (simp only: unat_of_nat_small)
  then have l: "unat (get_region_id (2 ^ p) ((offset AND NOT (mask p)) + of_nat k * 2 ^ p)) = ?q + k"
    using p by (simp only: get_region_id_def unat_div_2p) simp
  have "get_region_id (2 ^ p) offset + of_nat k = (of_nat (?q + k) :: u64)"
  proof -
    have "offset div 2 ^ p = of_nat (unat (offset div 2 ^ p))" by simp
    also have "\<dots> = of_nat ?q" using p by (simp only: unat_div_2p)
    finally show ?thesis by (simp add: get_region_id_def)
  qed
  then show r: "unat (get_region_id (2 ^ p) offset + of_nat k) = ?q + k"
    using lt2 by (simp only: unat_of_nat_small)
  show "get_region_id (2 ^ p) ((offset AND NOT (mask p)) + of_nat k * 2 ^ p)
           = get_region_id (2 ^ p) offset + of_nat k"
    using l r by (simp only: word_unat_eq_iff)
qed

lemma region_count_pow2: "p < 64 \<Longrightarrow> region_count (2 ^ p) len = unat ((len + 2 ^ p - 1) AND NOT (mask p)) div 2 ^ p"
  by (simp only: region_count_def unat_div_2p mask_eq_exp_minus_1)

lemma for_each_region_iterate:
  fixes offset len :: u64
  assumes p: "p < 64" and v: "unat offset + unat len < 2 ^ 64"
  shows "for_each_region (2 ^ p) offset len f s =
    iterate f (map (\<lambda>k. get_region_id (2 ^ p) offset + of_nat k) [0..<min (region_count (2 ^ p) len) (Suc INT_MAX)])
      (INT_MAX < region_count (2 ^ p) len) s"
proof -
  let ?a = "offset AND NOT (mask p)"
  let ?L = "(len + 2 ^ p - 1) AND NOT (mask p)"
  have le: "unat ?a + unat ?L \<le> 2 ^ 64" using p v by (rule aligned_sum_le)
  have rc: "unat (?L div 2 ^ p) = region_count (2 ^ p) len"
    using p by (simp only: region_count_pow2 unat_div_2p)
  have rc2: "region_count (2 ^ p) len = unat ?L div 2 ^ p"
    using p by (rule region_count_pow2)
  have m: "?L mod 2 ^ p = 0" by (rule and_mask_0_mod) (rule and_not_and_self)
  have "for_each_region (2 ^ p) offset len f s = for_loop (2 ^ p) ?a (?L div 2 ^ p) f 0 s"
    using m p
    by (simp add: for_each_region_def do_for_each_region_def Let_def and_not_and_self
        flip: mask_eq_exp_minus_1)
  also have "\<dots> = iterate f (map (\<lambda>k. get_region_id (2 ^ p) (?a + of_nat k * 2 ^ p))
        [0..<min (region_count (2 ^ p) len) (Suc INT_MAX)]) (INT_MAX < region_count (2 ^ p) len) s"
    by (simp only: for_loop_iterate [OF le0 le0] rc)
  also have "map (\<lambda>k. get_region_id (2 ^ p) (?a + of_nat k * 2 ^ p)) [0..<min (region_count (2 ^ p) len) (Suc INT_MAX)]
     = map (\<lambda>k. get_region_id (2 ^ p) offset + of_nat k) [0..<min (region_count (2 ^ p) len) (Suc INT_MAX)]"
    by (rule map_cong [OF refl]) (simp add: rc2 region_id_step(1) [OF p le])
  finally show ?thesis .
qed

lemma each_record_id: "each record_id ids acc = (Inr no, acc @ ids)"
  by (induction ids arbitrary: acc) (simp_all add: record_id_def)

lemma snd_iterate_record_id: "snd (iterate record_id ids overflow acc) = acc @ ids"
  by (simp add: iterate_def each_record_id)

lemma accepted_iff: "accepted offset len = (0 < len \<and> unat offset + unat len < 2 ^ 64)"
proof (cases "0 < len")
  case False
  then show ?thesis by (simp add: accepted_def validate_parameters_def)
next
  case True
  then have "offset + len \<noteq> offset" by simp
  then have "(offset < offset + len) = (offset \<le> offset + len)" by (metis order.strict_iff_order)
  also have "\<dots> = (unat offset + unat len < 2 ^ 64)"
    using no_olen_add_nat [of offset len] by simp
  finally show ?thesis using True by (simp add: accepted_def validate_parameters_def)
qed

lemma visited_ids_pow2:
  fixes offset len :: u64
  assumes p: "p < 64" and v: "unat offset + unat len < 2 ^ 64"
  shows "visited_ids (2 ^ p) offset len =
    map (\<lambda>k. get_region_id (2 ^ p) offset + of_nat k) [0..<min (region_count (2 ^ p) len) (Suc INT_MAX)]"
  by (simp only: visited_ids_def for_each_region_iterate [OF p v] snd_iterate_record_id append_Nil)

lemma ids_ascending_pow2:
  fixes offset len :: u64
  assumes p: "p < 64" and v: "unat offset + unat len < 2 ^ 64"
    and that: "m \<le> region_count (2 ^ p) len"
  shows "sorted_wrt (<) (map (\<lambda>k. get_region_id (2 ^ p) offset + of_nat k) [0..<m])"
proof -
  let ?L = "(len + 2 ^ p - 1) AND NOT (mask p)"
  have le: "unat (offset AND NOT (mask p)) + unat ?L \<le> 2 ^ 64" using p v by (rule aligned_sum_le)
  have rc2: "region_count (2 ^ p) len = unat ?L div 2 ^ p"
    using p by (rule region_count_pow2)
  have "sorted_wrt (<) [0..<m]" by (rule sorted_wrt_upt)
  then show ?thesis
  proof (rule sorted_wrt_map_mono)
    fix x y assume "x \<in> set [0..<m]" "y \<in> set [0..<m]" "x < y"
    then have "x < unat ?L div 2 ^ p" "y < unat ?L div 2 ^ p" using that rc2 by simp_all
    then show "get_region_id (2 ^ p) offset + of_nat x < get_region_id (2 ^ p) offset + of_nat y"
      using \<open>x < y\<close> by (simp add: word_less_nat_alt region_id_step(2) [OF p le])
  qed
qed

section \<open>Requests on a constructed coordinator\<close>

lemma for_each_region_visited:
  assumes "valid_region_size rs" and "accepted offset len"
  shows "for_each_region rs offset len f s =
    iterate f (visited_ids rs offset len) (INT_MAX < region_count rs len) s"
proof -
  from assms(1) obtain p where p: "p < 64" "rs = 2 ^ p"
    using valid_region_size_pow2 by blast
  from assms(2) have v: "unat offset + unat len < 2 ^ 64" by (simp add: accepted_iff)
  show ?thesis
    by (simp only: p(2) for_each_region_iterate [OF p(1) v] visited_ids_pow2 [OF p(1) v])
qed

lemma visited_ids_consecutive:
  assumes "valid_region_size rs" and "accepted offset len"
  shows "visited_ids rs offset len =
    map (\<lambda>k. get_region_id rs offset + of_nat k) [0..<min (region_count rs len) (Suc INT_MAX)]"
proof -
  from assms(1) obtain p where p: "p < 64" "rs = 2 ^ p"
    using valid_region_size_pow2 by blast
  from assms(2) have v: "unat offset + unat len < 2 ^ 64" by (simp add: accepted_iff)
  show ?thesis by (simp only: p(2) visited_ids_pow2 [OF p(1) v])
qed

lemma visited_ids_ascending:
  assumes "valid_region_size rs" and "accepted offset len"
  shows "sorted_wrt (<) (visited_ids rs offset len)"
proof -
  from assms(1) obtain p where p: "p < 64" "rs = 2 ^ p"
    using valid_region_size_pow2 by blast
  from assms(2) have v: "unat offset + unat len < 2 ^ 64" by (simp add: accepted_iff)
  have "min (region_count (2 ^ p) len) (Suc INT_MAX) \<le> region_count (2 ^ p) len" by simp
  then show ?thesis
    by (simp only: p(2) visited_ids_pow2 [OF p(1) v] ids_ascending_pow2 [OF p(1) v])
qed

lemma visited_ids_distinct:
  "valid_region_size rs \<Longrightarrow> accepted offset len \<Longrightarrow> distinct (visited_ids rs offset len)"
  using visited_ids_ascending [of rs offset len] by (simp add: strict_sorted_iff)

section \<open>Where a failure of an operation comes from\<close>

lemma each_failure:
  "fst (each f ids s) = Inl e \<Longrightarrow> \<exists>x s'. fst (f x s') = Inl e"
proof (induction ids arbitrary: s)
  case Nil
  then show ?case by simp
next
  case (Cons x xs)
  obtain r s' where fr: "f x s = (r, s')" by (cases "f x s")
  show ?case
  proof (cases r)
    case (Inl e')
    with fr Cons.prems have "fst (f x s) = Inl e" by simp
    then show ?thesis by blast
  next
    case (Inr st)
    show ?thesis
    proof (cases st)
      case no
      with Inr fr Cons.prems have "fst (each f xs s') = Inl e" by simp
      then show ?thesis by (rule Cons.IH)
    next
      case yes
      with Inr fr Cons.prems show ?thesis by simp
    qed
  qed
qed

lemma iterate_failure:
  "fst (iterate f ids overflow s) = Inl e \<Longrightarrow>
     e = Undefined_behaviour \<or> (\<exists>x s'. fst (f x s') = Inl e)"
  using each_failure [of f ids s e]
  by (auto simp: iterate_def split: prod.splits sum.splits stop_iteration.splits if_splits)

lemma for_each_region_failure:
  assumes "fst (for_each_region rs offset len f s) = Inl e"
  shows "e = Assertion_failed Offset_aligned \<or> e = Assertion_failed Length_aligned
       \<or> e = Assertion_failed Length_multiple \<or> e = Undefined_behaviour
       \<or> (\<exists>x s'. fst (f x s') = Inl e)"
proof -
  let ?a = "offset AND NOT (rs - 1)"
  let ?L = "(len + rs - 1) AND NOT (rs - 1)"
  show ?thesis
  proof (cases "for_each_region rs offset len f s = for_loop rs ?a (?L div rs) f 0 s")
    case False
    with assms show ?thesis
      by (auto simp: for_each_region_def do_for_each_region_def Let_def split: if_splits)
  next
    case True
    with assms have "fst (iterate f (map (\<lambda>k. get_region_id rs (?a + of_nat k * rs))
        [0..<min (unat (?L div rs)) (Suc INT_MAX)]) (INT_MAX < unat (?L div rs)) s) = Inl e"
      by (simp only: for_loop_iterate [OF le0 le0])
    then have "e = Undefined_behaviour \<or> (\<exists>x s'. fst (f x s') = Inl e)"
      by (rule iterate_failure)
    then show ?thesis by blast
  qed
qed

lemma lock_lambda_failure: "fst (lock_lambda x s) = Inl e \<Longrightarrow> e = Blocked"
  by (auto simp: lock_lambda_def mutex_lock_def split: prod.splits sum.splits mutex_state.splits)

lemma lock_shared_lambda_failure: "fst (lock_shared_lambda x s) = Inl e \<Longrightarrow> e = Blocked"
  by (auto simp: lock_shared_lambda_def mutex_lock_shared_def split: prod.splits sum.splits mutex_state.splits)

lemma unlock_f_failure:
  "fst (unlock_f x s) = Inl e \<Longrightarrow>
     e = Assertion_failed Region_exists \<or> e = Assertion_failed Region_is_locked
   \<or> e = Assertion_failed Unlock_region_exists \<or> e = Undefined_behaviour"
  by (auto simp: unlock_f_def get_locked_region_def mutex_unlock_def unlock_region_def Let_def
      split: option.splits sum.splits mutex_state.splits if_splits)

lemma unlock_shared_f_failure:
  "fst (unlock_shared_f x s) = Inl e \<Longrightarrow>
     e = Assertion_failed Region_exists \<or> e = Assertion_failed Region_is_locked
   \<or> e = Assertion_failed Unlock_region_exists \<or> e = Undefined_behaviour"
  by (auto simp: unlock_shared_f_def get_locked_region_def mutex_unlock_shared_def unlock_region_def Let_def
      split: option.splits sum.splits mutex_state.splits if_splits)

lemma unlock_lambda_failure:
  "fst (unlock_lambda x s) = Inl e \<Longrightarrow> fst (unlock_f x s) = Inl e"
  by (auto simp: unlock_lambda_def split: prod.splits sum.splits)

lemma unlock_shared_lambda_failure:
  "fst (unlock_shared_lambda x s) = Inl e \<Longrightarrow> fst (unlock_shared_f x s) = Inl e"
  by (auto simp: unlock_shared_lambda_def split: prod.splits sum.splits)

lemma try_lambda_failure: "fst (try_lambda t x st) \<noteq> Inl e"
  by (auto simp: try_lambda_def split: prod.splits)

lemma unlock_each_failure:
  "fst (unlock_each u ids s) = Inl e \<Longrightarrow> \<exists>x s'. fst (u x s') = Inl e"
proof (induction ids arbitrary: s)
  case Nil
  then show ?case by simp
next
  case (Cons x xs)
  obtain r s' where fr: "u x s = (r, s')" by (cases "u x s")
  show ?case
  proof (cases r)
    case (Inl e')
    with fr Cons.prems have "fst (u x s) = Inl e" by simp
    then show ?thesis by blast
  next
    case (Inr st)
    with fr Cons.prems have "fst (unlock_each u xs s') = Inl e" by simp
    then show ?thesis using Cons.IH by blast
  qed
qed

lemma lock_no_validation_failure:
  "accepted offset len \<Longrightarrow> validation_failure e \<Longrightarrow> fst (lock offset len s) \<noteq> Inl e"
  using for_each_region_failure [of "region_size s" offset len lock_lambda s e] lock_lambda_failure
  by (auto simp: lock_def accepted_def validation_failure_def)

lemma lock_shared_no_validation_failure:
  "accepted offset len \<Longrightarrow> validation_failure e \<Longrightarrow> fst (lock_shared offset len s) \<noteq> Inl e"
  using for_each_region_failure [of "region_size s" offset len lock_shared_lambda s e] lock_shared_lambda_failure
  by (auto simp: lock_shared_def accepted_def validation_failure_def)

lemma unlock_no_validation_failure:
  "accepted offset len \<Longrightarrow> validation_failure e \<Longrightarrow> fst (unlock offset len s) \<noteq> Inl e"
  using for_each_region_failure [of "region_size s" offset len unlock_lambda s e]
    unlock_lambda_failure unlock_f_failure
  by (fastforce simp: unlock_def accepted_def validation_failure_def)

lemma unlock_shared_no_validation_failure:
  "accepted offset len \<Longrightarrow> validation_failure e \<Longrightarrow> fst (unlock_shared offset len s) \<noteq> Inl e"
  using for_each_region_failure [of "region_size s" offset len unlock_shared_lambda s e]
    unlock_shared_lambda_failure unlock_shared_f_failure
  by (fastforce simp: unlock_shared_def accepted_def validation_failure_def)

lemma generic_try_lock_failure:
  assumes "accepted offset len" and "fst (generic_try_lock offset len t u s) = Inl e"
  shows "e = Assertion_failed Offset_aligned \<or> e = Assertion_failed Length_aligned
       \<or> e = Assertion_failed Length_multiple \<or> e = Undefined_behaviour
       \<or> (\<exists>x s'. fst (u x s') = Inl e)"
proof -
  obtain r s1 ids failed where fe:
    "for_each_region (region_size s) offset len (try_lambda t) (s, [], False) = (r, s1, ids, failed)"
    by (cases "for_each_region (region_size s) offset len (try_lambda t) (s, [], False)") auto
  show ?thesis
  proof (cases r)
    case (Inl e')
    with fe assms have "e' = e" by (simp add: generic_try_lock_def accepted_def)
    with Inl fe have "fst (for_each_region (region_size s) offset len (try_lambda t) (s, [], False)) = Inl e"
      by simp
    then show ?thesis
      using for_each_region_failure [of "region_size s" offset len "try_lambda t" "(s, [], False)" e]
        try_lambda_failure [of t _ _ e] by blast
  next
    case (Inr u')
    with fe assms have "fst (unlock_each u ids s1) = Inl e"
      by (auto simp: generic_try_lock_def accepted_def split: if_splits prod.splits sum.splits)
    then show ?thesis using unlock_each_failure by blast
  qed
qed

lemma try_lock_no_validation_failure:
  "accepted offset len \<Longrightarrow> validation_failure e \<Longrightarrow> fst (try_lock offset len s) \<noteq> Inl e"
  using generic_try_lock_failure [of offset len try_lock_f unlock_f s e] unlock_f_failure
  by (fastforce simp: try_lock_def validation_failure_def)

lemma try_lock_shared_no_validation_failure:
  "accepted offset len \<Longrightarrow> validation_failure e \<Longrightarrow> fst (try_lock_shared offset len s) \<noteq> Inl e"
  using generic_try_lock_failure [of offset len try_lock_shared_f unlock_shared_f s e] unlock_shared_f_failure
  by (fastforce simp: try_lock_shared_def validation_failure_def)

lemma rejected:
  assumes "\<not> accepted offset len"
  shows "\<exists>e. validation_failure e \<and> validate_parameters offset len = Inl e"
  using assms by (auto simp: accepted_def validate_parameters_def validation_failure_def)

section \<open>What the callbacks do to the counts\<close>

lemma acquired_empty: "acquired {} s s"
  by (simp add: acquired_def)

lemma released_empty: "released {} s s"
  by (simp add: released_def)

lemma acquired_trans:
  "acquired A s s1 \<Longrightarrow> acquired B s1 s2 \<Longrightarrow> A \<inter> B = {} \<Longrightarrow> acquired (A \<union> B) s s2"
  unfolding acquired_def refcount_of_def by (auto; metis)

lemma released_trans:
  "released A s s1 \<Longrightarrow> released B s1 s2 \<Longrightarrow> A \<inter> B = {} \<Longrightarrow> released (A \<union> B) s s2"
  unfolding released_def refcount_of_def by (auto; metis)

lemma get_and_lock_region_acquired: "acquired {x} s (snd (get_and_lock_region x s))"
  by (simp add: acquired_def refcount_of_def get_and_lock_region_def Let_def split: option.splits)

lemma set_mutex_same:
  "region_size (set_mutex x m s) = region_size s"
  "refcount_of (set_mutex x m s) y = refcount_of s y"
  "(m_regions (set_mutex x m s) y = None) = (m_regions s y = None)"
  "y \<noteq> x \<Longrightarrow> m_regions (set_mutex x m s) y = m_regions s y"
  by (simp_all add: set_mutex_def refcount_of_def split: option.splits)

lemma acquired_set_mutex: "acquired A s s' \<Longrightarrow> x \<in> A \<Longrightarrow> acquired A s (set_mutex x m s')"
  by (simp add: acquired_def set_mutex_same) (metis set_mutex_same(4))

lemma lock_lambda_acquired: "acquired {x} s (snd (lock_lambda x s))"
  using get_and_lock_region_acquired [of x s]
  by (auto simp: lock_lambda_def acquired_set_mutex split: prod.splits sum.splits)

lemma lock_shared_lambda_acquired: "acquired {x} s (snd (lock_shared_lambda x s))"
  using get_and_lock_region_acquired [of x s]
  by (auto simp: lock_shared_lambda_def acquired_set_mutex split: prod.splits sum.splits)

lemma try_lock_f_acquired: "acquired {x} s (snd (try_lock_f x s))"
  using get_and_lock_region_acquired [of x s]
  by (auto simp: try_lock_f_def acquired_set_mutex split: prod.splits)

lemma try_lock_shared_f_acquired: "acquired {x} s (snd (try_lock_shared_f x s))"
  using get_and_lock_region_acquired [of x s]
  by (auto simp: try_lock_shared_f_def acquired_set_mutex split: prod.splits)

lemma word_pred_eq_0: "((w :: u64) - 1 = 0) = (w = 1)"
  by (metis diff_add_cancel add_0 diff_self)

lemma unlock_region_released:
  assumes "m_regions s x = Some r" and "0 < refcount r"
  shows "fst (unlock_region x s) = Inr () \<and> released {x} s (snd (unlock_region x s))"
  using assms
  by (auto simp: unlock_region_def released_def refcount_of_def Let_def word_pred_eq_0)

lemma released_via_set_mutex:
  assumes "m_regions s x \<noteq> None" and "released {x} (set_mutex x m s) s'"
  shows "released {x} s s'"
  using assms by (auto simp: released_def set_mutex_same)

lemma unlock_f_cases:
  "(\<exists>e. unlock_f x s = (Inl e, s)
        \<and> (e = Assertion_failed Region_exists \<or> e = Assertion_failed Region_is_locked
            \<or> e = Undefined_behaviour))
   \<or> (fst (unlock_f x s) = Inr () \<and> released {x} s (snd (unlock_f x s)))"
proof (cases "get_locked_region x s")
  case (Inl e)
  then show ?thesis
    by (auto simp: unlock_f_def get_locked_region_def split: option.splits if_splits)
next
  case (Inr r)
  then have r: "m_regions s x = Some r" "0 < refcount r"
    by (auto simp: get_locked_region_def split: option.splits if_splits)
  show ?thesis
  proof (cases "mutex_unlock (mutex r)")
    case (Inl e)
    then have "e = Undefined_behaviour"
      by (auto simp: mutex_unlock_def split: mutex_state.splits)
    with Inl Inr show ?thesis by (simp add: unlock_f_def)
  next
    case m: (Inr m)
    from r have r': "m_regions (set_mutex x m s) x = Some (r\<lparr>mutex := m\<rparr>)" "0 < refcount (r\<lparr>mutex := m\<rparr>)"
      by (simp_all add: set_mutex_def)
    from r have ne: "m_regions s x \<noteq> None" by simp
    from unlock_region_released [OF r'] released_via_set_mutex [OF ne] Inr m
    show ?thesis by (auto simp: unlock_f_def)
  qed
qed

lemma unlock_shared_f_cases:
  "(\<exists>e. unlock_shared_f x s = (Inl e, s)
        \<and> (e = Assertion_failed Region_exists \<or> e = Assertion_failed Region_is_locked
            \<or> e = Undefined_behaviour))
   \<or> (fst (unlock_shared_f x s) = Inr () \<and> released {x} s (snd (unlock_shared_f x s)))"
proof (cases "get_locked_region x s")
  case (Inl e)
  then show ?thesis
    by (auto simp: unlock_shared_f_def get_locked_region_def split: option.splits if_splits)
next
  case (Inr r)
  then have r: "m_regions s x = Some r" "0 < refcount r"
    by (auto simp: get_locked_region_def split: option.splits if_splits)
  show ?thesis
  proof (cases "mutex_unlock_shared (mutex r)")
    case (Inl e)
    then have "e = Undefined_behaviour"
      by (auto simp: mutex_unlock_shared_def split: mutex_state.splits)
    with Inl Inr show ?thesis by (simp add: unlock_shared_f_def)
  next
    case m: (Inr m)
    from r have r': "m_regions (set_mutex x m s) x = Some (r\<lparr>mutex := m\<rparr>)" "0 < refcount (r\<lparr>mutex := m\<rparr>)"
      by (simp_all add: set_mutex_def)
    from r have ne: "m_regions s x \<noteq> None" by simp
    from unlock_region_released [OF r'] released_via_set_mutex [OF ne] Inr m
    show ?thesis by (auto simp: unlock_shared_f_def)
  qed
qed

lemma unlock_f_absent:
  "m_regions s x = None \<Longrightarrow> unlock_f x s = (Inl (Assertion_failed Region_exists), s)"
  "m_regions s x = None \<Longrightarrow> unlock_shared_f x s = (Inl (Assertion_failed Region_exists), s)"
  by (simp_all add: unlock_f_def unlock_shared_f_def get_locked_region_def)

section \<open>What the loops do to the counts\<close>

lemma each_acquired:
  assumes f: "\<And>x s. acquired {x} s (snd (f x s))"
    and d: "distinct ids"
    and e: "each f ids s = (r, s')"
  shows "\<exists>k\<le>length ids. acquired (set (take k ids)) s s' \<and> (r = Inr no \<longrightarrow> k = length ids)"
  using d e
proof (induction ids arbitrary: s)
  case Nil
  then show ?case by (simp add: acquired_empty)
next
  case (Cons x xs)
  obtain r1 s1 where fx: "f x s = (r1, s1)" by (cases "f x s")
  with f [of x s] have a1: "acquired {x} s s1" by simp
  show ?case
  proof (cases "r1 = Inr no")
    case False
    with fx Cons.prems have "s' = s1" "r \<noteq> Inr no"
      by (auto split: sum.splits stop_iteration.splits)
    with a1 have "acquired (set (take 1 (x # xs))) s s' \<and> (r = Inr no \<longrightarrow> 1 = length (x # xs))"
      by simp
    then show ?thesis by (intro exI [of _ 1]) simp
  next
    case True
    with fx Cons.prems have "each f xs s1 = (r, s')" by simp
    with Cons.IH Cons.prems obtain k where k: "k \<le> length xs"
      "acquired (set (take k xs)) s1 s'" "r = Inr no \<longrightarrow> k = length xs"
      by auto
    from Cons.prems have "{x} \<inter> set (take k xs) = {}"
      by (auto dest: in_set_takeD)
    with a1 k(2) have "acquired ({x} \<union> set (take k xs)) s s'" by (rule acquired_trans)
    then have "acquired (set (take (Suc k) (x # xs))) s s'" by simp
    with k show ?thesis by (intro exI [of _ "Suc k"]) simp
  qed
qed

lemma each_released:
  assumes f: "\<And>x s. (\<exists>e. f x s = (Inl e, s)) \<or> (fst (f x s) = Inr no \<and> released {x} s (snd (f x s)))"
    and d: "distinct ids"
    and e: "each f ids s = (r, s')"
  shows "\<exists>k\<le>length ids. released (set (take k ids)) s s' \<and> (r = Inr no \<longrightarrow> k = length ids)
           \<and> (k < length ids \<longrightarrow> f (ids ! k) s' = (r, s'))"
  using d e
proof (induction ids arbitrary: s)
  case Nil
  then show ?case by (simp add: released_empty)
next
  case (Cons x xs)
  from f [of x s] show ?case
  proof
    assume "\<exists>e. f x s = (Inl e, s)"
    then obtain e where fx: "f x s = (Inl e, s)" by blast
    with Cons.prems have "s' = s" "r = Inl e" by auto
    with fx have "released (set (take 0 (x # xs))) s s' \<and> (r = Inr no \<longrightarrow> 0 = length (x # xs))
       \<and> (0 < length (x # xs) \<longrightarrow> f ((x # xs) ! 0) s' = (r, s'))"
      by (simp add: released_empty)
    then show ?thesis by (intro exI [of _ 0]) simp
  next
    assume a: "fst (f x s) = Inr no \<and> released {x} s (snd (f x s))"
    obtain s1 where fx: "f x s = (Inr no, s1)" using a by (cases "f x s") auto
    with a have r1: "released {x} s s1" by simp
    from fx Cons.prems have "each f xs s1 = (r, s')" by simp
    with Cons.IH Cons.prems obtain k where k: "k \<le> length xs"
      "released (set (take k xs)) s1 s'" "r = Inr no \<longrightarrow> k = length xs"
      "k < length xs \<longrightarrow> f (xs ! k) s' = (r, s')"
      by auto
    from Cons.prems have "{x} \<inter> set (take k xs) = {}"
      by (auto dest: in_set_takeD)
    with r1 k(2) have "released ({x} \<union> set (take k xs)) s s'" by (rule released_trans)
    then have "released (set (take (Suc k) (x # xs))) s s'" by simp
    with k show ?thesis by (intro exI [of _ "Suc k"]) simp
  qed
qed

lemma unlock_each_released:
  assumes u: "\<And>x s. (\<exists>e. u x s = (Inl e, s)) \<or> (fst (u x s) = Inr () \<and> released {x} s (snd (u x s)))"
    and d: "distinct ids"
    and e: "unlock_each u ids s = (r, s')"
  shows "\<exists>k\<le>length ids. released (set (take k ids)) s s' \<and> (r = Inr () \<longrightarrow> k = length ids)"
  using d e
proof (induction ids arbitrary: s)
  case Nil
  then show ?case by (simp add: released_empty)
next
  case (Cons x xs)
  from u [of x s] show ?case
  proof
    assume "\<exists>e. u x s = (Inl e, s)"
    then obtain e where fx: "u x s = (Inl e, s)" by blast
    with Cons.prems have "s' = s" "r = Inl e" by auto
    then have "released (set (take 0 (x # xs))) s s' \<and> (r = Inr () \<longrightarrow> 0 = length (x # xs))"
      by (simp add: released_empty)
    then show ?thesis by (intro exI [of _ 0]) simp
  next
    assume a: "fst (u x s) = Inr () \<and> released {x} s (snd (u x s))"
    obtain s1 where fx: "u x s = (Inr (), s1)" using a by (cases "u x s") auto
    with a have r1: "released {x} s s1" by simp
    from fx Cons.prems have "unlock_each u xs s1 = (r, s')" by simp
    with Cons.IH Cons.prems obtain k where k: "k \<le> length xs"
      "released (set (take k xs)) s1 s'" "r = Inr () \<longrightarrow> k = length xs"
      by auto
    from Cons.prems have "{x} \<inter> set (take k xs) = {}"
      by (auto dest: in_set_takeD)
    with r1 k(2) have "released ({x} \<union> set (take k xs)) s s'" by (rule released_trans)
    then have "released (set (take (Suc k) (x # xs))) s s'" by simp
    with k show ?thesis by (intro exI [of _ "Suc k"]) simp
  qed
qed

lemma each_try_lambda:
  assumes t: "\<And>x s. acquired {x} s (snd (t x s))"
    and d: "distinct ids"
    and e: "each (try_lambda t) ids (s, acc, False) = (r, (s1, locked, failed))"
  shows "\<exists>k\<le>length ids. acquired (set (take k ids)) s s1
           \<and> (\<exists>j\<le>k. locked = acc @ take j ids)
           \<and> (if failed then r = Inr yes else r = Inr no \<and> k = length ids \<and> locked = acc @ ids)"
  using d e
proof (induction ids arbitrary: s acc)
  case Nil
  then show ?case by (simp add: acquired_empty)
next
  case (Cons x xs)
  obtain got s2 where tx: "t x s = (got, s2)" by (cases "t x s")
  with t [of x s] have a1: "acquired {x} s s2" by simp
  have step: "try_lambda t x (s, acc, False) =
      (if got then (Inr no, (s2, acc @ [x], False)) else (Inr yes, (s2, acc, True)))"
    using tx by (simp add: try_lambda_def)
  show ?case
  proof (cases got)
    case False
    with step Cons.prems have "s1 = s2" "locked = acc" "failed" "r = Inr yes"
      by simp_all
    with a1 have "1 \<le> length (x # xs) \<and> acquired (set (take 1 (x # xs))) s s1
           \<and> (\<exists>j\<le>1. locked = acc @ take j (x # xs))
           \<and> (if failed then r = Inr yes else r = Inr no \<and> 1 = length (x # xs) \<and> locked = acc @ (x # xs))"
      by (simp add: exI [of _ 0])
    then show ?thesis by (rule exI [of _ 1])
  next
    case True
    with step Cons.prems have "each (try_lambda t) xs (s2, acc @ [x], False) = (r, (s1, locked, failed))"
      by simp
    with Cons.IH [of s2 "acc @ [x]"] Cons.prems obtain k j where k: "k \<le> length xs"
      "acquired (set (take k xs)) s2 s1" "j \<le> k" "locked = (acc @ [x]) @ take j xs"
      "if failed then r = Inr yes else r = Inr no \<and> k = length xs \<and> locked = (acc @ [x]) @ xs"
      by auto
    from Cons.prems have "{x} \<inter> set (take k xs) = {}"
      by (auto dest: in_set_takeD)
    with a1 k(2) have "acquired ({x} \<union> set (take k xs)) s s1" by (rule acquired_trans)
    then have a: "acquired (set (take (Suc k) (x # xs))) s s1" by simp
    from k(3,4) have "\<exists>j\<le>Suc k. locked = acc @ take j (x # xs)"
      by (intro exI [of _ "Suc j"]) simp
    with a k(1,5) show ?thesis by (intro exI [of _ "Suc k"]) (simp split: if_splits)
  qed
qed

section \<open>What the operations do to the counts\<close>

lemma lock_lambda_not_yes: "fst (lock_lambda x s) \<noteq> Inr yes"
  by (auto simp: lock_lambda_def split: prod.splits sum.splits)

lemma lock_shared_lambda_not_yes: "fst (lock_shared_lambda x s) \<noteq> Inr yes"
  by (auto simp: lock_shared_lambda_def split: prod.splits sum.splits)

lemma each_not_yes:
  "(\<And>x s. fst (f x s) \<noteq> Inr yes) \<Longrightarrow> fst (each f ids s) \<noteq> Inr yes"
proof (induction ids arbitrary: s)
  case Nil
  then show ?case by simp
next
  case (Cons x xs)
  obtain r1 s1 where fx: "f x s = (r1, s1)" by (cases "f x s")
  with Cons.prems [of x s] have "r1 \<noteq> Inr yes" by simp
  with fx Cons.IH [of s1] Cons.prems show ?case
    by (auto split: sum.splits stop_iteration.splits)
qed

lemma iterate_acquired:
  assumes f: "\<And>x s. acquired {x} s (snd (f x s))"
    and ny: "\<And>x s. fst (f x s) \<noteq> Inr yes"
    and d: "distinct ids"
    and e: "iterate f ids ov s = (r, s')"
  shows "\<exists>k\<le>length ids. acquired (set (take k ids)) s s' \<and> (r = Inr () \<longrightarrow> k = length ids \<and> \<not> ov)"
proof -
  obtain r0 where e0: "each f ids s = (r0, s')"
    using e by (cases "each f ids s") (auto simp: iterate_def split: sum.splits stop_iteration.splits if_splits)
  from each_not_yes [of f ids s] ny e0 have "r0 \<noteq> Inr yes" by auto
  with e e0 have "r = Inr () \<longrightarrow> r0 = Inr no \<and> \<not> ov"
    by (auto simp: iterate_def split: sum.splits stop_iteration.splits if_splits)
  with each_acquired [of f ids s r0 s', OF f d e0] show ?thesis by blast
qed

lemma iterate_released:
  assumes f: "\<And>x s. (\<exists>e. f x s = (Inl e, s)) \<or> (fst (f x s) = Inr no \<and> released {x} s (snd (f x s)))"
    and d: "distinct ids"
    and e: "iterate f ids ov s = (r, s')"
  shows "\<exists>k\<le>length ids. released (set (take k ids)) s s' \<and> (r = Inr () \<longrightarrow> k = length ids \<and> \<not> ov)"
proof -
  obtain r0 where e0: "each f ids s = (r0, s')"
    using e by (cases "each f ids s") (auto simp: iterate_def split: sum.splits stop_iteration.splits if_splits)
  have ny: "fst (f x s) \<noteq> Inr yes" for x s using f [of x s] by auto
  from each_not_yes [of f ids s] ny e0 have "r0 \<noteq> Inr yes" by auto
  with e e0 have "r = Inr () \<longrightarrow> r0 = Inr no \<and> \<not> ov"
    by (auto simp: iterate_def split: sum.splits stop_iteration.splits if_splits)
  with each_released [of f ids s r0 s', OF f d e0] show ?thesis by blast
qed

lemma unlock_lambda_cases:
  "(\<exists>e. unlock_lambda x s = (Inl e, s)) \<or> (fst (unlock_lambda x s) = Inr no \<and> released {x} s (snd (unlock_lambda x s)))"
  using unlock_f_cases [of x s]
  by (auto simp: unlock_lambda_def split: prod.splits sum.splits)

lemma unlock_shared_lambda_cases:
  "(\<exists>e. unlock_shared_lambda x s = (Inl e, s)) \<or> (fst (unlock_shared_lambda x s) = Inr no \<and> released {x} s (snd (unlock_shared_lambda x s)))"
  using unlock_shared_f_cases [of x s]
  by (auto simp: unlock_shared_lambda_def split: prod.splits sum.splits)

lemma lock_effect:
  assumes v: "valid_region_size (region_size s)" and a: "accepted offset len"
    and l: "lock offset len s = (r, s')"
  shows "\<exists>k\<le>length (visited_ids (region_size s) offset len).
           acquired (set (take k (visited_ids (region_size s) offset len))) s s'
           \<and> (r = Inr () \<longrightarrow> k = length (visited_ids (region_size s) offset len)
                 \<and> \<not> INT_MAX < region_count (region_size s) len)"
proof -
  from a l have "iterate lock_lambda (visited_ids (region_size s) offset len)
      (INT_MAX < region_count (region_size s) len) s = (r, s')"
    by (simp add: lock_def accepted_def for_each_region_visited [OF v a])
  then show ?thesis
    by (rule iterate_acquired [OF lock_lambda_acquired lock_lambda_not_yes visited_ids_distinct [OF v a]])
qed

lemma lock_shared_effect:
  assumes v: "valid_region_size (region_size s)" and a: "accepted offset len"
    and l: "lock_shared offset len s = (r, s')"
  shows "\<exists>k\<le>length (visited_ids (region_size s) offset len).
           acquired (set (take k (visited_ids (region_size s) offset len))) s s'
           \<and> (r = Inr () \<longrightarrow> k = length (visited_ids (region_size s) offset len)
                 \<and> \<not> INT_MAX < region_count (region_size s) len)"
proof -
  from a l have "iterate lock_shared_lambda (visited_ids (region_size s) offset len)
      (INT_MAX < region_count (region_size s) len) s = (r, s')"
    by (simp add: lock_shared_def accepted_def for_each_region_visited [OF v a])
  then show ?thesis
    by (rule iterate_acquired [OF lock_shared_lambda_acquired lock_shared_lambda_not_yes
          visited_ids_distinct [OF v a]])
qed

lemma unlock_effect:
  assumes v: "valid_region_size (region_size s)" and a: "accepted offset len"
    and l: "unlock offset len s = (r, s')"
  shows "\<exists>k\<le>length (visited_ids (region_size s) offset len).
           released (set (take k (visited_ids (region_size s) offset len))) s s'
           \<and> (r = Inr () \<longrightarrow> k = length (visited_ids (region_size s) offset len)
                 \<and> \<not> INT_MAX < region_count (region_size s) len)"
proof -
  from a l have "iterate unlock_lambda (visited_ids (region_size s) offset len)
      (INT_MAX < region_count (region_size s) len) s = (r, s')"
    by (simp add: unlock_def accepted_def for_each_region_visited [OF v a])
  then show ?thesis
    by (rule iterate_released [OF unlock_lambda_cases visited_ids_distinct [OF v a]])
qed

lemma unlock_shared_effect:
  assumes v: "valid_region_size (region_size s)" and a: "accepted offset len"
    and l: "unlock_shared offset len s = (r, s')"
  shows "\<exists>k\<le>length (visited_ids (region_size s) offset len).
           released (set (take k (visited_ids (region_size s) offset len))) s s'
           \<and> (r = Inr () \<longrightarrow> k = length (visited_ids (region_size s) offset len)
                 \<and> \<not> INT_MAX < region_count (region_size s) len)"
proof -
  from a l have "iterate unlock_shared_lambda (visited_ids (region_size s) offset len)
      (INT_MAX < region_count (region_size s) len) s = (r, s')"
    by (simp add: unlock_shared_def accepted_def for_each_region_visited [OF v a])
  then show ?thesis
    by (rule iterate_released [OF unlock_shared_lambda_cases visited_ids_distinct [OF v a]])
qed

lemma generic_try_lock_effect:
  assumes t: "\<And>x s. acquired {x} s (snd (t x s))"
    and u: "\<And>x s. (\<exists>e. u x s = (Inl e, s)) \<or> (fst (u x s) = Inr () \<and> released {x} s (snd (u x s)))"
    and v: "valid_region_size (region_size s)" and a: "accepted offset len"
    and g: "generic_try_lock offset len t u s = (r, s')"
  shows "\<exists>k j s1. acquired (set (take k (visited_ids (region_size s) offset len))) s s1
           \<and> released (set (take j (visited_ids (region_size s) offset len))) s1 s'
           \<and> (r = Inr True \<longrightarrow> k = length (visited_ids (region_size s) offset len) \<and> s' = s1
                 \<and> \<not> INT_MAX < region_count (region_size s) len)"
proof -
  let ?ids = "visited_ids (region_size s) offset len"
  let ?ov = "INT_MAX < region_count (region_size s) len"
  have d: "distinct ?ids" using v a by (rule visited_ids_distinct)
  obtain r1 s1 locked failed where
    it: "iterate (try_lambda t) ?ids ?ov (s, [], False) = (r1, (s1, locked, failed))"
    by (cases "iterate (try_lambda t) ?ids ?ov (s, [], False)") auto
  then obtain r0 where e0: "each (try_lambda t) ?ids (s, [], False) = (r0, (s1, locked, failed))"
    by (cases "each (try_lambda t) ?ids (s, [], False)")
      (auto simp: iterate_def split: sum.splits stop_iteration.splits if_splits)
  from each_try_lambda [OF t d e0] obtain k j where k: "k \<le> length ?ids"
    "acquired (set (take k ?ids)) s s1" "j \<le> k" "locked = take j ?ids"
    "if failed then r0 = Inr yes else r0 = Inr no \<and> k = length ?ids \<and> locked = ?ids"
    by auto
  from a g it have g': "(case r1 of Inl e \<Rightarrow> (Inl e, s1)
      | Inr _ \<Rightarrow> if failed then (case unlock_each u locked s1 of
                    (Inl e, s2) \<Rightarrow> (Inl e, s2) | (Inr _, s2) \<Rightarrow> (Inr (\<not> failed), s2))
                 else (Inr (\<not> failed), s1)) = (r, s')"
    by (auto simp: generic_try_lock_def accepted_def for_each_region_visited [OF v a]
        split: sum.splits if_splits)
  show ?thesis
  proof (cases failed)
    case False
    with k(5) it e0 have "r1 = (if ?ov then Inl Undefined_behaviour else Inr ())"
      by (auto simp: iterate_def)
    with g' False have "s' = s1" "r = Inr True \<longrightarrow> \<not> ?ov"
      by (auto split: if_splits)
    moreover from False k(5) have "k = length ?ids" by simp
    moreover have "released (set (take 0 ?ids)) s1 s1" by (simp add: released_empty)
    ultimately show ?thesis using k(2) by blast
  next
    case True
    with k(5) it e0 have r1: "r1 = Inr ()" by (auto simp: iterate_def)
    obtain r2 s2 where ue: "unlock_each u locked s1 = (r2, s2)" by (cases "unlock_each u locked s1")
    from d k(4) have "distinct locked" by simp
    from unlock_each_released [OF u this ue] obtain j' where
      "released (set (take j' locked)) s1 s2" by blast
    then have rel: "released (set (take (min j' j) ?ids)) s1 s2" by (simp add: k(4) take_take)
    from g' r1 True ue have "s' = s2" "r \<noteq> Inr True"
      by (auto split: sum.splits)
    with rel k(2) show ?thesis by blast
  qed
qed

lemma unlock_f_cases': "(\<exists>e. unlock_f x s = (Inl e, s)) \<or> (fst (unlock_f x s) = Inr () \<and> released {x} s (snd (unlock_f x s)))"
  using unlock_f_cases [of x s] by blast

lemma unlock_shared_f_cases': "(\<exists>e. unlock_shared_f x s = (Inl e, s)) \<or> (fst (unlock_shared_f x s) = Inr () \<and> released {x} s (snd (unlock_shared_f x s)))"
  using unlock_shared_f_cases [of x s] by blast

lemmas try_lock_effect =
  generic_try_lock_effect [of try_lock_f unlock_f, OF try_lock_f_acquired unlock_f_cases', folded try_lock_def]

lemmas try_lock_shared_effect =
  generic_try_lock_effect [of try_lock_shared_f unlock_shared_f,
    OF try_lock_shared_f_acquired unlock_shared_f_cases', folded try_lock_shared_def]

section \<open>The invariant of the table along a sequence of calls\<close>

lemma bounded_table_ok: "bounded n s \<Longrightarrow> table_ok s"
  by (simp add: bounded_def table_ok_def)

lemma bounded_mono: "bounded n s \<Longrightarrow> n \<le> m \<Longrightarrow> bounded m s"
  by (auto simp: bounded_def intro: le_trans)

lemma unat_suc_le: "unat (w :: u64) \<le> n \<Longrightarrow> Suc n < 2 ^ 64 \<Longrightarrow> unat (w + 1) = Suc (unat w)"
  by (simp add: unat_word_ariths)

lemma acquired_bounded:
  assumes "acquired A s s'" and "bounded n s" and "Suc n < 2 ^ 64"
  shows "bounded (Suc n) s'"
  unfolding bounded_def
proof (intro allI impI)
  fix x r assume r: "m_regions s' x = Some r"
  show "0 < refcount r \<and> unat (refcount r) \<le> Suc n"
  proof (cases "x \<in> A")
    case False
    with assms(1) r have "m_regions s x = Some r" by (simp add: acquired_def)
    with assms(2) have "0 < refcount r \<and> unat (refcount r) \<le> n" by (simp add: bounded_def)
    then show ?thesis by simp
  next
    case True
    with assms(1) r have e: "refcount r = refcount_of s x + 1"
      by (auto simp: acquired_def refcount_of_def)
    have "unat (refcount_of s x) \<le> n"
      using assms(2) by (auto simp: bounded_def refcount_of_def split: option.splits)
    then have "unat (refcount_of s x + 1) = Suc (unat (refcount_of s x))"
      using assms(3) by (rule unat_suc_le)
    with e \<open>unat (refcount_of s x) \<le> n\<close> show ?thesis by (simp add: word_less_nat_alt)
  qed
qed

lemma released_bounded:
  assumes "released A s s'" and "bounded n s"
  shows "bounded n s'"
  unfolding bounded_def
proof (intro allI impI)
  fix x r assume r: "m_regions s' x = Some r"
  show "0 < refcount r \<and> unat (refcount r) \<le> n"
  proof (cases "x \<in> A")
    case False
    with assms(1) r have "m_regions s x = Some r" by (simp add: released_def)
    with assms(2) show ?thesis by (auto simp: bounded_def)
  next
    case True
    with assms(1) r have e: "refcount r = refcount_of s x - 1" "refcount_of s x \<noteq> 0" "refcount_of s x \<noteq> 1"
      by (auto simp: released_def refcount_of_def)
    have b: "unat (refcount_of s x) \<le> n"
      using assms(2) by (auto simp: bounded_def refcount_of_def split: option.splits)
    from e(2) have "unat (refcount_of s x - 1) = unat (refcount_of s x) - 1"
      by (rule unat_minus_one)
    moreover from e(3) have "refcount_of s x - 1 \<noteq> 0" by (simp add: word_pred_eq_0)
    ultimately show ?thesis using e(1) b by (simp add: word_gt_0)
  qed
qed

lemma acquired_region_size: "acquired A s s' \<Longrightarrow> region_size s' = region_size s"
  by (simp add: acquired_def)

lemma released_region_size: "released A s s' \<Longrightarrow> region_size s' = region_size s"
  by (simp add: released_def)

lemma rejected_unchanged:
  assumes "\<not> accepted offset len"
  shows "snd (lock offset len s) = s" "snd (try_lock offset len s) = s"
    "snd (unlock offset len s) = s" "snd (with_lock offset len func s) = s"
    "snd (lock_shared offset len s) = s" "snd (try_lock_shared offset len s) = s"
    "snd (unlock_shared offset len s) = s" "snd (with_lock_shared offset len func s) = s"
  using rejected [OF assms]
  by (auto simp: lock_def try_lock_def unlock_def with_lock_def lock_shared_def
        try_lock_shared_def unlock_shared_def with_lock_shared_def generic_try_lock_def)

lemma keeps_same: "bounded n s \<Longrightarrow> keeps n s s"
  by (simp add: keeps_def bounded_mono)

lemma keeps_acquired: "acquired A s s' \<Longrightarrow> bounded n s \<Longrightarrow> Suc n < 2 ^ 64 \<Longrightarrow> keeps n s s'"
  by (simp add: keeps_def acquired_bounded acquired_region_size)

lemma keeps_released: "released A s s' \<Longrightarrow> bounded n s \<Longrightarrow> keeps n s s'"
  by (simp add: keeps_def released_bounded released_region_size bounded_mono)

lemma keeps_released': "released A s1 s' \<Longrightarrow> keeps n s s1 \<Longrightarrow> keeps n s s'"
  by (simp add: keeps_def released_bounded released_region_size)

lemma lock_keeps:
  assumes v: "valid_region_size (region_size s)" and b: "bounded n s" and n: "Suc n < 2 ^ 64"
  shows "keeps n s (snd (lock offset len s))"
proof (cases "accepted offset len")
  case False
  then show ?thesis using b by (simp add: rejected_unchanged keeps_same)
next
  case True
  from lock_effect [OF v True, of "fst (lock offset len s)" "snd (lock offset len s)"]
  obtain A where "acquired A s (snd (lock offset len s))" by auto
  then show ?thesis using b n by (rule keeps_acquired)
qed

lemma lock_shared_keeps:
  assumes v: "valid_region_size (region_size s)" and b: "bounded n s" and n: "Suc n < 2 ^ 64"
  shows "keeps n s (snd (lock_shared offset len s))"
proof (cases "accepted offset len")
  case False
  then show ?thesis using b by (simp add: rejected_unchanged keeps_same)
next
  case True
  from lock_shared_effect [OF v True, of "fst (lock_shared offset len s)" "snd (lock_shared offset len s)"]
  obtain A where "acquired A s (snd (lock_shared offset len s))" by auto
  then show ?thesis using b n by (rule keeps_acquired)
qed

lemma unlock_keeps:
  assumes v: "valid_region_size (region_size s)" and b: "bounded n s" and n: "Suc n < 2 ^ 64"
  shows "keeps n s (snd (unlock offset len s))"
proof (cases "accepted offset len")
  case False
  then show ?thesis using b by (simp add: rejected_unchanged keeps_same)
next
  case True
  from unlock_effect [OF v True, of "fst (unlock offset len s)" "snd (unlock offset len s)"]
  obtain A where "released A s (snd (unlock offset len s))" by auto
  then show ?thesis using b by (rule keeps_released)
qed

lemma unlock_shared_keeps:
  assumes v: "valid_region_size (region_size s)" and b: "bounded n s" and n: "Suc n < 2 ^ 64"
  shows "keeps n s (snd (unlock_shared offset len s))"
proof (cases "accepted offset len")
  case False
  then show ?thesis using b by (simp add: rejected_unchanged keeps_same)
next
  case True
  from unlock_shared_effect [OF v True, of "fst (unlock_shared offset len s)" "snd (unlock_shared offset len s)"]
  obtain A where "released A s (snd (unlock_shared offset len s))" by auto
  then show ?thesis using b by (rule keeps_released)
qed

lemma try_lock_keeps:
  assumes v: "valid_region_size (region_size s)" and b: "bounded n s" and n: "Suc n < 2 ^ 64"
  shows "keeps n s (snd (try_lock offset len s))"
proof (cases "accepted offset len")
  case False
  then show ?thesis using b by (simp add: rejected_unchanged keeps_same)
next
  case True
  from try_lock_effect [OF v True, of "fst (try_lock offset len s)" "snd (try_lock offset len s)"]
  obtain A B s1 where "acquired A s s1" "released B s1 (snd (try_lock offset len s))" by auto
  then show ?thesis using b n by (blast intro: keeps_acquired keeps_released')
qed

lemma try_lock_shared_keeps:
  assumes v: "valid_region_size (region_size s)" and b: "bounded n s" and n: "Suc n < 2 ^ 64"
  shows "keeps n s (snd (try_lock_shared offset len s))"
proof (cases "accepted offset len")
  case False
  then show ?thesis using b by (simp add: rejected_unchanged keeps_same)
next
  case True
  from try_lock_shared_effect [OF v True, of "fst (try_lock_shared offset len s)" "snd (try_lock_shared offset len s)"]
  obtain A B s1 where "acquired A s s1" "released B s1 (snd (try_lock_shared offset len s))" by auto
  then show ?thesis using b n by (blast intro: keeps_acquired keeps_released')
qed

lemma with_lock_keeps:
  assumes v: "valid_region_size (region_size s)" and b: "bounded n s" and n: "Suc n < 2 ^ 64"
  shows "keeps n s (snd (with_lock offset len (func_of throws) s))"
proof (cases "accepted offset len")
  case False
  then show ?thesis using b by (simp add: rejected_unchanged keeps_same)
next
  case True
  obtain r1 s1 where l: "lock offset len s = (r1, s1)" by (cases "lock offset len s")
  with lock_keeps [OF v b n, of offset len] have k1: "keeps n s s1" by simp
  show ?thesis
  proof (cases "r1 = Inr () \<and> \<not> throws")
    case False
    with l have "snd (with_lock offset len (func_of throws) s) = s1"
      by (auto simp: with_lock_def func_of_def split: sum.splits)
    with k1 show ?thesis by simp
  next
    case t: True
    with l have w: "with_lock offset len (func_of throws) s = unlock offset len s1"
      by (simp add: with_lock_def func_of_def)
    from k1 v have v1: "valid_region_size (region_size s1)" by (simp add: keeps_def)
    from unlock_effect [OF v1 True, of "fst (unlock offset len s1)" "snd (unlock offset len s1)"]
    obtain A where "released A s1 (snd (unlock offset len s1))" by auto
    then show ?thesis using k1 by (simp add: w keeps_released')
  qed
qed

lemma with_lock_shared_keeps:
  assumes v: "valid_region_size (region_size s)" and b: "bounded n s" and n: "Suc n < 2 ^ 64"
  shows "keeps n s (snd (with_lock_shared offset len (func_of throws) s))"
proof (cases "accepted offset len")
  case False
  then show ?thesis using b by (simp add: rejected_unchanged keeps_same)
next
  case True
  obtain r1 s1 where l: "lock_shared offset len s = (r1, s1)" by (cases "lock_shared offset len s")
  with lock_shared_keeps [OF v b n, of offset len] have k1: "keeps n s s1" by simp
  show ?thesis
  proof (cases "r1 = Inr () \<and> \<not> throws")
    case False
    with l have "snd (with_lock_shared offset len (func_of throws) s) = s1"
      by (auto simp: with_lock_shared_def func_of_def split: sum.splits)
    with k1 show ?thesis by simp
  next
    case t: True
    with l have w: "with_lock_shared offset len (func_of throws) s = unlock_shared offset len s1"
      by (simp add: with_lock_shared_def func_of_def)
    from k1 v have v1: "valid_region_size (region_size s1)" by (simp add: keeps_def)
    from unlock_shared_effect [OF v1 True, of "fst (unlock_shared offset len s1)" "snd (unlock_shared offset len s1)"]
    obtain A where "released A s1 (snd (unlock_shared offset len s1))" by auto
    then show ?thesis using k1 by (simp add: w keeps_released')
  qed
qed

lemma snd_returned: "snd (returned x) = snd x"
  by (auto simp: returned_def split: prod.splits sum.splits)

lemma perform_keeps:
  assumes v: "valid_region_size (region_size s)" and b: "bounded n s" and n: "Suc n < 2 ^ 64"
  shows "keeps n s (snd (perform c s))"
  by (cases c)
    (simp_all add: snd_returned lock_keeps [OF v b n] try_lock_keeps [OF v b n]
      unlock_keeps [OF v b n] with_lock_keeps [OF v b n] lock_shared_keeps [OF v b n]
      try_lock_shared_keeps [OF v b n] unlock_shared_keeps [OF v b n]
      with_lock_shared_keeps [OF v b n])

lemma run_bounded:
  "valid_region_size (region_size s) \<Longrightarrow> bounded n s \<Longrightarrow> n + length cs < 2 ^ 64 \<Longrightarrow>
     bounded (n + length cs) (run cs s) \<and> region_size (run cs s) = region_size s"
proof (induction cs arbitrary: n s)
  case Nil
  then show ?case by simp
next
  case (Cons c cs)
  obtain r s1 where p: "perform c s = (r, s1)" by (cases "perform c s")
  from Cons.prems have "Suc n < 2 ^ 64" by simp
  with perform_keeps [OF Cons.prems(1,2), of c] p
  have k: "bounded (Suc n) s1" "region_size s1 = region_size s" by (simp_all add: keeps_def)
  with Cons.prems have v1: "valid_region_size (region_size s1)" by simp
  from Cons.prems have "Suc n + length cs < 2 ^ 64" by simp
  from Cons.IH [OF v1 k(1) this] k(2)
  have ih: "bounded (n + length (c # cs)) (run cs s1)" "region_size (run cs s1) = region_size s"
    by simp_all
  from k(1) have b1: "bounded (n + length (c # cs)) s1" by (rule bounded_mono) simp
  show ?case
    using p ih b1 k(2) by (auto split: sum.splits stop.splits)
qed

lemma new_range_lock_bounded: "new_range_lock rs = Inr s \<Longrightarrow> bounded 0 s \<and> valid_region_size (region_size s)"
  by (auto simp: new_range_lock_def bounded_def valid_region_size_def split: if_splits)

lemma run_table_ok:
  assumes "new_range_lock rs = Inr s" and "length cs < 2 ^ 64"
  shows "table_ok (run cs s)"
  using run_bounded [of s 0 cs] new_range_lock_bounded [OF assms(1)] assms(2)
  by (auto intro: bounded_table_ok)

section \<open>Counting the holders\<close>

lemma holders_le: "holders rs held x \<le> length held"
  by (simp add: holders_def)

lemma holders_Cons:
  "holders rs (h # held) x = holders rs held x + (if covers rs x h then 1 else 0)"
  by (simp add: holders_def)

lemma length_filter_remove1:
  "h \<in> set xs \<Longrightarrow> length (filter P (remove1 h xs)) = length (filter P xs) - (if P h then 1 else 0)"
proof (induction xs)
  case Nil
  then show ?case by simp
next
  case (Cons x xs)
  show ?case
  proof (cases "h = x")
    case True
    then show ?thesis by simp
  next
    case False
    with Cons.prems have hx: "h \<in> set xs" by simp
    then have "P h \<Longrightarrow> 0 < length (filter P xs)"
      by (auto simp: length_greater_0_conv filter_empty_conv simp del: length_greater_0_conv)
    with Cons.IH [OF hx] False show ?thesis by auto
  qed
qed

lemma holders_remove1:
  "h \<in> set held \<Longrightarrow> holders rs (remove1 h held) x = holders rs held x - (if covers rs x h then 1 else 0)"
  by (simp add: holders_def length_filter_remove1)

lemma holders_pos: "h \<in> set held \<Longrightarrow> covers rs x h \<Longrightarrow> 0 < holders rs held x"
  by (auto simp: holders_def length_greater_0_conv filter_empty_conv simp del: length_greater_0_conv)

lemma of_nat_u64_eq_0: "n < 2 ^ 64 \<Longrightarrow> ((of_nat n :: u64) = 0) = (n = 0)"
proof
  assume n: "n < 2 ^ 64" and z: "(of_nat n :: u64) = 0"
  from z have "unat (of_nat n :: u64) = 0" by simp
  with n show "n = 0" by (simp only: unat_of_nat_small)
next
  assume "n = 0"
  then show "(of_nat n :: u64) = 0" by simp
qed

lemma refcount_of_unchanged: "m_regions s' x = m_regions s x \<Longrightarrow> refcount_of s' x = refcount_of s x"
  by (simp add: refcount_of_def)

lemma counts_refcount: "counts held s \<Longrightarrow> refcount_of s x = of_nat (holders (region_size s) held x)"
  by (simp add: counts_def)

lemma counts_table_ok: "counts held s \<Longrightarrow> table_ok s"
  by (simp add: counts_def)

lemma countsI:
  "table_ok s \<Longrightarrow> (\<And>x. refcount_of s x = of_nat (holders (region_size s) held x)) \<Longrightarrow> counts held s"
  by (simp add: counts_def)

lemma table_okD: "table_ok s \<Longrightarrow> m_regions s x = Some r \<Longrightarrow> 0 < refcount r"
  by (simp add: table_ok_def)

lemma of_nat_Suc_neq_0: "Suc n < 2 ^ 64 \<Longrightarrow> (of_nat (Suc n) :: u64) \<noteq> 0"
proof
  assume n: "Suc n < 2 ^ 64" and z: "(of_nat (Suc n) :: u64) = 0"
  from n z have "Suc n = 0" by (simp only: of_nat_u64_eq_0)
  then show False by simp
qed

lemma counts_acquired:
  assumes a: "acquired (set (visited_ids (region_size s) offset len)) s s'"
    and c: "counts held s" and n: "Suc (length held) < 2 ^ 64"
  shows "counts ((shared, offset, len) # held) s'"
proof (rule countsI)
  let ?A = "set (visited_ids (region_size s) offset len)"
  have rs: "region_size s' = region_size s" using a by (rule acquired_region_size)
  have rc: "refcount_of s' x = of_nat (holders (region_size s) ((shared, offset, len) # held) x)" for x
  proof (cases "x \<in> ?A")
    case True
    then have cx: "covers (region_size s) x (shared, offset, len)" by (simp add: covers_def)
    from True a have "refcount_of s' x = refcount_of s x + 1" by (simp add: acquired_def)
    also have "refcount_of s x = of_nat (holders (region_size s) held x)"
      using c by (rule counts_refcount)
    finally show ?thesis using cx by (simp add: holders_Cons)
  next
    case False
    then have cx: "\<not> covers (region_size s) x (shared, offset, len)" by (simp add: covers_def)
    from False a have "m_regions s' x = m_regions s x" by (simp add: acquired_def)
    then have "refcount_of s' x = refcount_of s x" by (rule refcount_of_unchanged)
    also have "refcount_of s x = of_nat (holders (region_size s) held x)"
      using c by (rule counts_refcount)
    finally show ?thesis using cx by (simp add: holders_Cons)
  qed
  show "refcount_of s' x = of_nat (holders (region_size s') ((shared, offset, len) # held) x)" for x
    using rc [of x] by (simp only: rs)
  show "table_ok s'"
    unfolding table_ok_def
  proof (intro allI impI)
    fix x r assume r: "m_regions s' x = Some r"
    show "0 < refcount r"
    proof (cases "x \<in> ?A")
      case False
      with a r have "m_regions s x = Some r" by (simp add: acquired_def)
      with counts_table_ok [OF c] show ?thesis by (rule table_okD)
    next
      case True
      then have cx: "covers (region_size s) x (shared, offset, len)" by (simp add: covers_def)
      from r have "refcount r = refcount_of s' x" by (simp add: refcount_of_def)
      also have "\<dots> = of_nat (Suc (holders (region_size s) held x))"
        using rc [of x] cx by (simp add: holders_Cons)
      finally have e: "refcount r = of_nat (Suc (holders (region_size s) held x))" .
      have "Suc (holders (region_size s) held x) \<le> Suc (length held)"
        using holders_le [of "region_size s" held x] by simp
      from this n have "Suc (holders (region_size s) held x) < 2 ^ 64" by (rule le_less_trans)
      then have "(of_nat (Suc (holders (region_size s) held x)) :: u64) \<noteq> 0"
        by (rule of_nat_Suc_neq_0)
      with e show ?thesis by (simp only: word_gt_0) 
    qed
  qed
qed

lemma of_nat_pred: "0 < n \<Longrightarrow> (of_nat (n - 1) :: u64) = of_nat n - 1"
  by (simp add: of_nat_diff)

lemma counts_released:
  assumes a: "released (set (visited_ids (region_size s) offset len)) s s'"
    and c: "counts held s" and h: "(shared, offset, len) \<in> set held"
  shows "counts (remove1 (shared, offset, len) held) s'"
proof (rule countsI)
  let ?A = "set (visited_ids (region_size s) offset len)"
  have rs: "region_size s' = region_size s" using a by (rule released_region_size)
  have rc: "refcount_of s' x = of_nat (holders (region_size s) (remove1 (shared, offset, len) held) x)" for x
  proof (cases "x \<in> ?A")
    case True
    then have cx: "covers (region_size s) x (shared, offset, len)" by (simp add: covers_def)
    from True a have "refcount_of s' x = refcount_of s x - 1" by (simp add: released_def)
    also have "refcount_of s x = of_nat (holders (region_size s) held x)"
      using c by (rule counts_refcount)
    finally have e: "refcount_of s' x = of_nat (holders (region_size s) held x) - 1" .
    from h cx have "0 < holders (region_size s) held x" by (rule holders_pos)
    then have "(of_nat (holders (region_size s) held x - 1) :: u64) = of_nat (holders (region_size s) held x) - 1"
      by (rule of_nat_pred)
    with e cx h show ?thesis by (simp only: holders_remove1 if_True)
  next
    case False
    then have cx: "\<not> covers (region_size s) x (shared, offset, len)" by (simp add: covers_def)
    from False a have "m_regions s' x = m_regions s x" by (simp add: released_def)
    then have "refcount_of s' x = refcount_of s x" by (rule refcount_of_unchanged)
    also have "refcount_of s x = of_nat (holders (region_size s) held x)"
      using c by (rule counts_refcount)
    finally show ?thesis using cx h by (simp only: holders_remove1 if_False diff_zero)
  qed
  show "refcount_of s' x = of_nat (holders (region_size s') (remove1 (shared, offset, len) held) x)" for x
    using rc [of x] by (simp only: rs)
  show "table_ok s'"
    unfolding table_ok_def
  proof (intro allI impI)
    fix x r assume r: "m_regions s' x = Some r"
    show "0 < refcount r"
    proof (cases "x \<in> ?A")
      case False
      with a r have "m_regions s x = Some r" by (simp add: released_def)
      with counts_table_ok [OF c] show ?thesis by (rule table_okD)
    next
      case True
      with a r have "refcount_of s x \<noteq> 1" "refcount_of s' x = refcount_of s x - 1"
        by (auto simp: released_def)
      then have "refcount_of s' x \<noteq> 0" by (simp add: word_pred_eq_0)
      with r show ?thesis by (simp add: refcount_of_def word_gt_0)
    qed
  qed
qed

lemma counts_nil_empty: "counts [] s \<Longrightarrow> m_regions s = Map.empty"
proof (rule ext)
  fix x assume c: "counts [] s"
  show "m_regions s x = None"
  proof (cases "m_regions s x")
    case None
    then show ?thesis .
  next
    case (Some r)
    with counts_table_ok [OF c] have "0 < refcount r" by (rule table_okD)
    moreover from counts_refcount [OF c, of x] have "refcount_of s x = 0" by (simp add: holders_def)
    with Some have "refcount r = 0" by (simp add: refcount_of_def)
    ultimately show ?thesis by simp
  qed
qed

lemma returned_True: "returned x = (Inr True, s') \<Longrightarrow> x = (Inr (), s')"
  by (auto simp: returned_def split: prod.splits sum.splits)

lemma rejected_fails:
  assumes "\<not> accepted offset len"
  shows "fst (lock offset len s) \<noteq> Inr ()" "fst (try_lock offset len s) \<noteq> Inr True"
    "fst (unlock offset len s) \<noteq> Inr ()" "fst (lock_shared offset len s) \<noteq> Inr ()"
    "fst (try_lock_shared offset len s) \<noteq> Inr True" "fst (unlock_shared offset len s) \<noteq> Inr ()"
  using rejected [OF assms]
  by (auto simp: lock_def try_lock_def unlock_def lock_shared_def
        try_lock_shared_def unlock_shared_def generic_try_lock_def)

lemma lock_returns:
  assumes v: "valid_region_size (region_size s)" and l: "lock offset len s = (Inr (), s')"
  shows "acquired (set (visited_ids (region_size s) offset len)) s s'"
proof -
  from l rejected_fails(1) [of offset len s] have a: "accepted offset len" by auto
  from lock_effect [OF v a l] show ?thesis by auto
qed

lemma lock_shared_returns:
  assumes v: "valid_region_size (region_size s)" and l: "lock_shared offset len s = (Inr (), s')"
  shows "acquired (set (visited_ids (region_size s) offset len)) s s'"
proof -
  from l rejected_fails(4) [of offset len s] have a: "accepted offset len" by auto
  from lock_shared_effect [OF v a l] show ?thesis by auto
qed

lemma try_lock_returns:
  assumes v: "valid_region_size (region_size s)" and l: "try_lock offset len s = (Inr True, s')"
  shows "acquired (set (visited_ids (region_size s) offset len)) s s'"
proof -
  from l rejected_fails(2) [of offset len s] have a: "accepted offset len" by auto
  from try_lock_effect [OF v a l] show ?thesis by auto
qed

lemma try_lock_shared_returns:
  assumes v: "valid_region_size (region_size s)" and l: "try_lock_shared offset len s = (Inr True, s')"
  shows "acquired (set (visited_ids (region_size s) offset len)) s s'"
proof -
  from l rejected_fails(5) [of offset len s] have a: "accepted offset len" by auto
  from try_lock_shared_effect [OF v a l] show ?thesis by auto
qed

lemma unlock_returns:
  assumes v: "valid_region_size (region_size s)" and l: "unlock offset len s = (Inr (), s')"
  shows "released (set (visited_ids (region_size s) offset len)) s s'"
proof -
  from l rejected_fails(3) [of offset len s] have a: "accepted offset len" by auto
  from unlock_effect [OF v a l] show ?thesis by auto
qed

lemma unlock_shared_returns:
  assumes v: "valid_region_size (region_size s)" and l: "unlock_shared offset len s = (Inr (), s')"
  shows "released (set (visited_ids (region_size s) offset len)) s s'"
proof -
  from l rejected_fails(6) [of offset len s] have a: "accepted offset len" by auto
  from unlock_shared_effect [OF v a l] show ?thesis by auto
qed

lemma with_lock_returns:
  assumes "with_lock offset len (func_of throws) s = (Inr (), s')"
  shows "\<exists>s1. lock offset len s = (Inr (), s1) \<and> unlock offset len s1 = (Inr (), s')"
  using assms by (auto simp: with_lock_def func_of_def split: prod.splits sum.splits if_splits)

lemma with_lock_shared_returns:
  assumes "with_lock_shared offset len (func_of throws) s = (Inr (), s')"
  shows "\<exists>s1. lock_shared offset len s = (Inr (), s1) \<and> unlock_shared offset len s1 = (Inr (), s')"
  using assms by (auto simp: with_lock_shared_def func_of_def split: prod.splits sum.splits if_splits)

lemma counts_scoped:
  assumes a: "acquired (set (visited_ids (region_size s) offset len)) s s1"
    and r: "released (set (visited_ids (region_size s1) offset len)) s1 s'"
    and c: "counts held s" and n: "Suc (length held) < 2 ^ 64"
  shows "counts held s' \<and> region_size s' = region_size s"
proof -
  have rs: "region_size s1 = region_size s" using a by (rule acquired_region_size)
  have c1: "counts ((False, offset, len) # held) s1" using a c n by (rule counts_acquired)
  have "counts (remove1 (False, offset, len) ((False, offset, len) # held)) s'"
    using r c1 by (rule counts_released) simp
  moreover have "region_size s' = region_size s1" using r by (rule released_region_size)
  ultimately show ?thesis using rs by simp
qed

lemma run_all_Cons:
  "run_all (c # cs) s = Some s' \<Longrightarrow> \<exists>s1. perform c s = (Inr True, s1) \<and> run_all cs s1 = Some s'"
  by (auto split: prod.splits sum.splits bool.splits if_splits)

lemma run_all_balanced:
  "valid_region_size (region_size s) \<Longrightarrow> counts held s \<Longrightarrow> length held + length cs < 2 ^ 64 \<Longrightarrow>
   balanced_from held cs \<Longrightarrow> run_all cs s = Some s' \<Longrightarrow> m_regions s' = Map.empty"
proof (induction cs arbitrary: held s)
  case Nil
  then show ?case by (simp add: counts_nil_empty)
next
  case (Cons c cs)
  from Cons.prems(5) obtain s1 where p: "perform c s = (Inr True, s1)" and r: "run_all cs s1 = Some s'"
    using run_all_Cons by blast
  note v = Cons.prems(1) and cn = Cons.prems(2)
  from Cons.prems(3) have n: "Suc (length held) < 2 ^ 64" and n': "length held < 2 ^ 64" by simp_all
  have acq: "m_regions s' = Map.empty"
    if a: "acquired (set (visited_ids (region_size s) offset len)) s s1"
      and b: "balanced_from ((shared, offset, len) # held) cs" for shared offset len
  proof -
    have "valid_region_size (region_size s1)" using v a by (simp add: acquired_region_size)
    moreover have "counts ((shared, offset, len) # held) s1" using a cn n by (rule counts_acquired)
    moreover have "length ((shared, offset, len) # held) + length cs < 2 ^ 64" using Cons.prems(3) by simp
    ultimately show ?thesis using b r by (rule Cons.IH)
  qed
  have rel: "m_regions s' = Map.empty"
    if a: "released (set (visited_ids (region_size s) offset len)) s s1"
      and h: "(shared, offset, len) \<in> set held"
      and b: "balanced_from (remove1 (shared, offset, len) held) cs" for shared offset len
  proof -
    have "valid_region_size (region_size s1)" using v a by (simp add: released_region_size)
    moreover have "counts (remove1 (shared, offset, len) held) s1" using a cn h by (rule counts_released)
    moreover have "length (remove1 (shared, offset, len) held) + length cs < 2 ^ 64"
      using Cons.prems(3) h by (simp add: length_remove1)
    ultimately show ?thesis using b r by (rule Cons.IH)
  qed
  have sco: "m_regions s' = Map.empty"
    if a: "acquired (set (visited_ids (region_size s) offset len)) s s2"
      and b: "released (set (visited_ids (region_size s2) offset len)) s2 s1"
      and bal: "balanced_from held cs" for offset len s2
  proof -
    from counts_scoped [OF a b cn n] have c1: "counts held s1" "region_size s1 = region_size s" by simp_all
    from c1(2) v have "valid_region_size (region_size s1)" by simp
    moreover note c1(1)
    moreover have "length held + length cs < 2 ^ 64" using Cons.prems(3) by simp
    ultimately show ?thesis using bal r by (rule Cons.IH)
  qed
  show ?case
  proof (cases c)
    case (Lock offset len)
    with p have "lock offset len s = (Inr (), s1)" by (simp add: returned_True)
    from lock_returns [OF v this] Cons.prems(4) Lock show ?thesis by (intro acq [of offset len False]) simp_all
  next
    case (Try_lock offset len)
    with p have "try_lock offset len s = (Inr True, s1)" by simp
    from try_lock_returns [OF v this] Cons.prems(4) Try_lock show ?thesis by (intro acq [of offset len False]) simp_all
  next
    case (Unlock offset len)
    with p have "unlock offset len s = (Inr (), s1)" by (simp add: returned_True)
    from unlock_returns [OF v this] Cons.prems(4) Unlock show ?thesis by (intro rel [of offset len False]) simp_all
  next
    case (With_lock offset len throws)
    with p have "with_lock offset len (func_of throws) s = (Inr (), s1)" by (simp add: returned_True)
    then obtain s2 where l: "lock offset len s = (Inr (), s2)" and u: "unlock offset len s2 = (Inr (), s1)"
      using with_lock_returns by blast
    from lock_returns [OF v l] have a: "acquired (set (visited_ids (region_size s) offset len)) s s2" .
    then have "valid_region_size (region_size s2)" using v by (simp add: acquired_region_size)
    from unlock_returns [OF this u] a Cons.prems(4) With_lock show ?thesis by (intro sco [of offset len s2]) simp_all
  next
    case (Lock_shared offset len)
    with p have "lock_shared offset len s = (Inr (), s1)" by (simp add: returned_True)
    from lock_shared_returns [OF v this] Cons.prems(4) Lock_shared show ?thesis by (intro acq [of offset len True]) simp_all
  next
    case (Try_lock_shared offset len)
    with p have "try_lock_shared offset len s = (Inr True, s1)" by simp
    from try_lock_shared_returns [OF v this] Cons.prems(4) Try_lock_shared show ?thesis by (intro acq [of offset len True]) simp_all
  next
    case (Unlock_shared offset len)
    with p have "unlock_shared offset len s = (Inr (), s1)" by (simp add: returned_True)
    from unlock_shared_returns [OF v this] Cons.prems(4) Unlock_shared show ?thesis by (intro rel [of offset len True]) simp_all
  next
    case (With_lock_shared offset len throws)
    with p have "with_lock_shared offset len (func_of throws) s = (Inr (), s1)" by (simp add: returned_True)
    then obtain s2 where l: "lock_shared offset len s = (Inr (), s2)" and u: "unlock_shared offset len s2 = (Inr (), s1)"
      using with_lock_shared_returns by blast
    from lock_shared_returns [OF v l] have a: "acquired (set (visited_ids (region_size s) offset len)) s s2" .
    then have "valid_region_size (region_size s2)" using v by (simp add: acquired_region_size)
    from unlock_shared_returns [OF this u] a Cons.prems(4) With_lock_shared show ?thesis by (intro sco [of offset len s2]) simp_all
  qed
qed

section \<open>Locking free regions and unlocking them again\<close>

lemma each_fill:
  assumes f: "\<And>x s. m_regions s x = None \<Longrightarrow> f x s = (Inr no, s\<lparr>m_regions := (m_regions s)(x \<mapsto> v)\<rparr>)"
    and d: "distinct ids" and n: "\<forall>x\<in>set ids. m_regions s x = None"
  shows "each f ids s = (Inr no, s\<lparr>m_regions := (\<lambda>x. if x \<in> set ids then Some v else m_regions s x)\<rparr>)"
  using d n
proof (induction ids arbitrary: s)
  case Nil
  then show ?case by simp
next
  case (Cons x xs)
  let ?s1 = "s\<lparr>m_regions := (m_regions s)(x \<mapsto> v)\<rparr>"
  from Cons.prems have fx: "f x s = (Inr no, ?s1)" by (simp add: f)
  from Cons.prems have "\<forall>y\<in>set xs. m_regions ?s1 y = None" by auto
  with Cons.IH [of ?s1] Cons.prems
  have "each f xs ?s1 = (Inr no, ?s1\<lparr>m_regions := (\<lambda>y. if y \<in> set xs then Some v else m_regions ?s1 y)\<rparr>)"
    by simp
  moreover have "(\<lambda>y. if y \<in> set xs then Some v else m_regions ?s1 y)
      = (\<lambda>y. if y \<in> set (x # xs) then Some v else m_regions s y)"
    by (rule ext) simp
  ultimately show ?case using fx by simp
qed

lemma each_clear:
  assumes f: "\<And>x s. m_regions s x = Some v \<Longrightarrow> f x s = (Inr no, s\<lparr>m_regions := (m_regions s)(x := None)\<rparr>)"
    and d: "distinct ids" and n: "\<forall>x\<in>set ids. m_regions s x = Some v"
  shows "each f ids s = (Inr no, s\<lparr>m_regions := (\<lambda>x. if x \<in> set ids then None else m_regions s x)\<rparr>)"
  using d n
proof (induction ids arbitrary: s)
  case Nil
  then show ?case by simp
next
  case (Cons x xs)
  let ?s1 = "s\<lparr>m_regions := (m_regions s)(x := None)\<rparr>"
  from Cons.prems have fx: "f x s = (Inr no, ?s1)" by (simp add: f)
  from Cons.prems have "\<forall>y\<in>set xs. m_regions ?s1 y = Some v" by auto
  with Cons.IH [of ?s1] Cons.prems
  have "each f xs ?s1 = (Inr no, ?s1\<lparr>m_regions := (\<lambda>y. if y \<in> set xs then None else m_regions ?s1 y)\<rparr>)"
    by simp
  moreover have "(\<lambda>y. if y \<in> set xs then None else m_regions ?s1 y)
      = (\<lambda>y. if y \<in> set (x # xs) then None else m_regions s y)"
    by (rule ext) simp
  ultimately show ?case using fx by simp
qed

lemma each_try_fill:
  assumes t: "\<And>x s. m_regions s x = None \<Longrightarrow> t x s = (True, s\<lparr>m_regions := (m_regions s)(x \<mapsto> v)\<rparr>)"
    and d: "distinct ids" and n: "\<forall>x\<in>set ids. m_regions s x = None"
  shows "each (try_lambda t) ids (s, acc, False) =
    (Inr no, (s\<lparr>m_regions := (\<lambda>x. if x \<in> set ids then Some v else m_regions s x)\<rparr>, acc @ ids, False))"
  using d n
proof (induction ids arbitrary: s acc)
  case Nil
  then show ?case by simp
next
  case (Cons x xs)
  let ?s1 = "s\<lparr>m_regions := (m_regions s)(x \<mapsto> v)\<rparr>"
  from Cons.prems have fx: "try_lambda t x (s, acc, False) = (Inr no, (?s1, acc @ [x], False))"
    by (simp add: t try_lambda_def)
  from Cons.prems have "\<forall>y\<in>set xs. m_regions ?s1 y = None" by auto
  with Cons.IH [of ?s1 "acc @ [x]"] Cons.prems
  have "each (try_lambda t) xs (?s1, acc @ [x], False) =
     (Inr no, (?s1\<lparr>m_regions := (\<lambda>y. if y \<in> set xs then Some v else m_regions ?s1 y)\<rparr>, (acc @ [x]) @ xs, False))"
    by simp
  moreover have "(\<lambda>y. if y \<in> set xs then Some v else m_regions ?s1 y)
      = (\<lambda>y. if y \<in> set (x # xs) then Some v else m_regions s y)"
    by (rule ext) simp
  ultimately show ?case using fx by simp
qed

lemma lock_lambda_free:
  "m_regions s x = None \<Longrightarrow>
   lock_lambda x s = (Inr no, s\<lparr>m_regions := (m_regions s)(x \<mapsto> \<lparr>refcount = 1, mutex = Locked_exclusive\<rparr>)\<rparr>)"
  by (simp add: lock_lambda_def get_and_lock_region_def mutex_lock_def set_mutex_def Let_def)

lemma try_lock_f_free:
  "m_regions s x = None \<Longrightarrow>
   try_lock_f x s = (True, s\<lparr>m_regions := (m_regions s)(x \<mapsto> \<lparr>refcount = 1, mutex = Locked_exclusive\<rparr>)\<rparr>)"
  by (simp add: try_lock_f_def get_and_lock_region_def mutex_try_lock_def set_mutex_def Let_def)

lemma unlock_lambda_held:
  "m_regions s x = Some \<lparr>refcount = 1, mutex = Locked_exclusive\<rparr> \<Longrightarrow>
   unlock_lambda x s = (Inr no, s\<lparr>m_regions := (m_regions s)(x := None)\<rparr>)"
  by (simp add: unlock_lambda_def unlock_f_def get_locked_region_def mutex_unlock_def set_mutex_def
      unlock_region_def Let_def)

lemma lock_shared_lambda_free:
  "m_regions s x = None \<Longrightarrow>
   lock_shared_lambda x s = (Inr no, s\<lparr>m_regions := (m_regions s)(x \<mapsto> \<lparr>refcount = 1, mutex = Locked_shared (Suc 0)\<rparr>)\<rparr>)"
  by (simp add: lock_shared_lambda_def get_and_lock_region_def mutex_lock_shared_def set_mutex_def Let_def)

lemma try_lock_shared_f_free:
  "m_regions s x = None \<Longrightarrow>
   try_lock_shared_f x s = (True, s\<lparr>m_regions := (m_regions s)(x \<mapsto> \<lparr>refcount = 1, mutex = Locked_shared (Suc 0)\<rparr>)\<rparr>)"
  by (simp add: try_lock_shared_f_def get_and_lock_region_def mutex_try_lock_shared_def set_mutex_def Let_def)

lemma unlock_shared_lambda_held:
  "m_regions s x = Some \<lparr>refcount = 1, mutex = Locked_shared (Suc 0)\<rparr> \<Longrightarrow>
   unlock_shared_lambda x s = (Inr no, s\<lparr>m_regions := (m_regions s)(x := None)\<rparr>)"
  by (simp add: unlock_shared_lambda_def unlock_shared_f_def get_locked_region_def
      mutex_unlock_shared_def set_mutex_def unlock_region_def Let_def)

lemma taken_back:
  "\<forall>x\<in>set ids. m_regions s x = None \<Longrightarrow>
   (taken ids v s)\<lparr>m_regions := (\<lambda>x. if x \<in> set ids then None else m_regions (taken ids v s) x)\<rparr> = s"
proof -
  assume n: "\<forall>x\<in>set ids. m_regions s x = None"
  have "(\<lambda>x. if x \<in> set ids then None else m_regions (taken ids v s) x) = m_regions s"
    using n by (auto simp: taken_def intro!: ext)
  then show ?thesis by (simp add: taken_def)
qed

lemma roundtrip:
  assumes v: "valid_region_size (region_size s)" and a: "accepted offset len"
    and c: "region_count (region_size s) len \<le> INT_MAX"
    and n: "\<forall>x\<in>set (visited_ids (region_size s) offset len). m_regions s x = None"
  shows "lock offset len s = (Inr (), taken (visited_ids (region_size s) offset len)
                                          \<lparr>refcount = 1, mutex = Locked_exclusive\<rparr> s)"
    and "try_lock offset len s = (Inr True, taken (visited_ids (region_size s) offset len)
                                          \<lparr>refcount = 1, mutex = Locked_exclusive\<rparr> s)"
    and "unlock offset len (taken (visited_ids (region_size s) offset len)
                                          \<lparr>refcount = 1, mutex = Locked_exclusive\<rparr> s) = (Inr (), s)"
    and "lock_shared offset len s = (Inr (), taken (visited_ids (region_size s) offset len)
                                          \<lparr>refcount = 1, mutex = Locked_shared (Suc 0)\<rparr> s)"
    and "try_lock_shared offset len s = (Inr True, taken (visited_ids (region_size s) offset len)
                                          \<lparr>refcount = 1, mutex = Locked_shared (Suc 0)\<rparr> s)"
    and "unlock_shared offset len (taken (visited_ids (region_size s) offset len)
                                          \<lparr>refcount = 1, mutex = Locked_shared (Suc 0)\<rparr> s) = (Inr (), s)"
proof -
  let ?ids = "visited_ids (region_size s) offset len"
  let ?x = "\<lparr>refcount = 1, mutex = Locked_exclusive\<rparr>"
  let ?h = "\<lparr>refcount = 1, mutex = Locked_shared (Suc 0)\<rparr>"
  have d: "distinct ?ids" using v a by (rule visited_ids_distinct)
  from c have ov: "\<not> INT_MAX < region_count (region_size s) len" by simp
  from a have va: "validate_parameters offset len = Inr ()" by (simp add: accepted_def)
  have rs: "region_size (taken ?ids w s) = region_size s" for w by (simp add: taken_def)
  have tk: "\<forall>x\<in>set ?ids. m_regions (taken ?ids w s) x = Some w" for w by (simp add: taken_def)
  show "lock offset len s = (Inr (), taken ?ids ?x s)"
    using each_fill [of lock_lambda ?x ?ids s, OF lock_lambda_free d n] ov
    by (simp add: lock_def va for_each_region_visited [OF v a] iterate_def taken_def)
  show "lock_shared offset len s = (Inr (), taken ?ids ?h s)"
    using each_fill [of lock_shared_lambda ?h ?ids s, OF lock_shared_lambda_free d n] ov
    by (simp add: lock_shared_def va for_each_region_visited [OF v a] iterate_def taken_def)
  show "try_lock offset len s = (Inr True, taken ?ids ?x s)"
    using each_try_fill [of try_lock_f ?x ?ids s "[]", OF try_lock_f_free d n] ov
    by (simp add: try_lock_def generic_try_lock_def va for_each_region_visited [OF v a]
        iterate_def taken_def)
  show "try_lock_shared offset len s = (Inr True, taken ?ids ?h s)"
    using each_try_fill [of try_lock_shared_f ?h ?ids s "[]", OF try_lock_shared_f_free d n] ov
    by (simp add: try_lock_shared_def generic_try_lock_def va for_each_region_visited [OF v a]
        iterate_def taken_def)
  show "unlock offset len (taken ?ids ?x s) = (Inr (), s)"
    using each_clear [of ?x unlock_lambda ?ids "taken ?ids ?x s", OF unlock_lambda_held d tk] ov
      for_each_region_visited [of "region_size s" offset len unlock_lambda "taken ?ids ?x s", OF v a]
    by (simp add: unlock_def va rs iterate_def taken_back [OF n])
  show "unlock_shared offset len (taken ?ids ?h s) = (Inr (), s)"
    using each_clear [of ?h unlock_shared_lambda ?ids "taken ?ids ?h s", OF unlock_shared_lambda_held d tk] ov
      for_each_region_visited [of "region_size s" offset len unlock_shared_lambda "taken ?ids ?h s", OF v a]
    by (simp add: unlock_shared_def va rs iterate_def taken_back [OF n])
qed

section \<open>The order of the region ids\<close>

text \<open>
  Claim C5. For a coordinator whose region size passed the constructor and a request that
  passed \<open>validate_parameters\<close>, the ids handed to the callback depend on the region size,
  the offset and the length only; they are consecutive, each one more than the one before,
  starting at the id of the region that holds \<open>offset\<close>, hence strictly ascending (as
  unsigned numbers, with no wrap-around) and free of duplicates. Every callback, of an
  exclusive or of a shared operation, is run over this one sequence in this order, up to the
  point where it stops.
\<close>

theorem region_ids_consecutive_ascending:
  assumes "valid_region_size rs" and "accepted offset len"
  shows "visited_ids rs offset len =
           map (\<lambda>k. get_region_id rs offset + of_nat k) [0..<length (visited_ids rs offset len)]
       \<and> length (visited_ids rs offset len) = min (region_count rs len) (Suc INT_MAX)
       \<and> sorted_wrt (<) (visited_ids rs offset len)
       \<and> distinct (visited_ids rs offset len)
       \<and> for_each_region rs offset len f s =
           iterate f (visited_ids rs offset len) (INT_MAX < region_count rs len) s"
proof -
  have c: "visited_ids rs offset len =
    map (\<lambda>k. get_region_id rs offset + of_nat k) [0..<min (region_count rs len) (Suc INT_MAX)]"
    using assms by (rule visited_ids_consecutive)
  then have l: "length (visited_ids rs offset len) = min (region_count rs len) (Suc INT_MAX)"
    by simp
  from c l have c': "visited_ids rs offset len =
    map (\<lambda>k. get_region_id rs offset + of_nat k) [0..<length (visited_ids rs offset len)]"
    by simp
  have a: "sorted_wrt (<) (visited_ids rs offset len)"
    using assms by (rule visited_ids_ascending)
  have d: "distinct (visited_ids rs offset len)"
    using assms by (rule visited_ids_distinct)
  have e: "for_each_region rs offset len f s =
    iterate f (visited_ids rs offset len) (INT_MAX < region_count rs len) s"
    using assms by (rule for_each_region_visited)
  from c' l a d e show ?thesis by (intro conjI)
qed

lemma valid_region_size_1024: "valid_region_size 1024"
  by (simp add: valid_region_size_def new_range_lock_def)

lemma visited_ids_1024_2048_3000: "visited_ids 1024 2048 3000 = [2, 3, 4]"
  by (simp add: visited_ids_def for_each_region_def do_for_each_region_def record_id_def
      get_region_id_def INT_MAX_def for_loop.simps)

theorem region_ids_consecutive_ascending_witness:
  "valid_region_size 1024 \<and> accepted 2048 3000
   \<and> visited_ids 1024 2048 3000 = [2, 3, 4]
   \<and> sorted_wrt (<) (visited_ids 1024 2048 3000)
   \<and> distinct (visited_ids 1024 2048 3000)
   \<and> for_each_region 1024 2048 3000 record_id [] = iterate record_id [2, 3, 4] False []"
proof -
  have a: "accepted 2048 3000" by (simp add: accepted_def validate_parameters_def)
  have r: "\<not> INT_MAX < region_count 1024 3000" by (simp add: region_count_def INT_MAX_def)
  show ?thesis
    using region_ids_consecutive_ascending [OF valid_region_size_1024 a, of record_id "[]"]
      valid_region_size_1024 a r
    by (simp only: visited_ids_1024_2048_3000 simp_thms)
qed

section \<open>Validation of the request\<close>

text \<open>
  Claim C6. \<open>validate_parameters\<close> lets a request through exactly when its length is
  positive and \<open>offset + length\<close> does not exceed the range of \<open>uint64_t\<close>. A request it
  refuses makes every public entry point (\<open>lock\<close>, \<open>try_lock\<close>, \<open>unlock\<close>, their shared
  variants, \<open>with_lock\<close> and \<open>with_lock_shared\<close>) abort on the failed assertion with the
  coordinator exactly as it was: no region created, locked or counted. A request it lets
  through never makes \<open>lock\<close>, \<open>try_lock\<close>, \<open>unlock\<close> or their shared variants abort on one
  of the two assertions of the validation.
\<close>

theorem invalid_request_rejected_untouched:
  "(accepted offset len = (0 < len \<and> unat offset + unat len < 2 ^ 64))
   \<and> (\<not> accepted offset len \<longrightarrow>
        (\<exists>e. validation_failure e
           \<and> lock offset len s = (Inl e, s)
           \<and> try_lock offset len s = (Inl e, s)
           \<and> unlock offset len s = (Inl e, s)
           \<and> with_lock offset len func s = (Inl e, s)
           \<and> lock_shared offset len s = (Inl e, s)
           \<and> try_lock_shared offset len s = (Inl e, s)
           \<and> unlock_shared offset len s = (Inl e, s)
           \<and> with_lock_shared offset len func s = (Inl e, s)))
   \<and> (accepted offset len \<longrightarrow>
        (\<forall>e. validation_failure e \<longrightarrow>
           fst (lock offset len s) \<noteq> Inl e
           \<and> fst (try_lock offset len s) \<noteq> Inl e
           \<and> fst (unlock offset len s) \<noteq> Inl e
           \<and> fst (lock_shared offset len s) \<noteq> Inl e
           \<and> fst (try_lock_shared offset len s) \<noteq> Inl e
           \<and> fst (unlock_shared offset len s) \<noteq> Inl e))"
proof (intro conjI impI allI)
  show "accepted offset len = (0 < len \<and> unat offset + unat len < 2 ^ 64)"
    by (rule accepted_iff)
next
  assume "\<not> accepted offset len"
  then obtain e where e: "validation_failure e" "validate_parameters offset len = Inl e"
    using rejected by blast
  from e(2) have "lock offset len s = (Inl e, s)" "try_lock offset len s = (Inl e, s)"
    "unlock offset len s = (Inl e, s)" "with_lock offset len func s = (Inl e, s)"
    "lock_shared offset len s = (Inl e, s)" "try_lock_shared offset len s = (Inl e, s)"
    "unlock_shared offset len s = (Inl e, s)" "with_lock_shared offset len func s = (Inl e, s)"
    by (simp_all add: lock_def try_lock_def unlock_def with_lock_def lock_shared_def
        try_lock_shared_def unlock_shared_def with_lock_shared_def generic_try_lock_def)
  with e(1) show "\<exists>e. validation_failure e
           \<and> lock offset len s = (Inl e, s)
           \<and> try_lock offset len s = (Inl e, s)
           \<and> unlock offset len s = (Inl e, s)
           \<and> with_lock offset len func s = (Inl e, s)
           \<and> lock_shared offset len s = (Inl e, s)
           \<and> try_lock_shared offset len s = (Inl e, s)
           \<and> unlock_shared offset len s = (Inl e, s)
           \<and> with_lock_shared offset len func s = (Inl e, s)"
    by blast
next
  fix e assume "accepted offset len" "validation_failure e"
  then show "fst (lock offset len s) \<noteq> Inl e" by (rule lock_no_validation_failure)
next
  fix e assume "accepted offset len" "validation_failure e"
  then show "fst (try_lock offset len s) \<noteq> Inl e" by (rule try_lock_no_validation_failure)
next
  fix e assume "accepted offset len" "validation_failure e"
  then show "fst (unlock offset len s) \<noteq> Inl e" by (rule unlock_no_validation_failure)
next
  fix e assume "accepted offset len" "validation_failure e"
  then show "fst (lock_shared offset len s) \<noteq> Inl e" by (rule lock_shared_no_validation_failure)
next
  fix e assume "accepted offset len" "validation_failure e"
  then show "fst (try_lock_shared offset len s) \<noteq> Inl e"
    by (rule try_lock_shared_no_validation_failure)
next
  fix e assume "accepted offset len" "validation_failure e"
  then show "fst (unlock_shared offset len s) \<noteq> Inl e"
    by (rule unlock_shared_no_validation_failure)
qed

lemmas run_defs =
  lock_def try_lock_def unlock_def with_lock_def lock_shared_def try_lock_shared_def
  unlock_shared_def with_lock_shared_def generic_try_lock_def validate_parameters_def
  for_each_region_def do_for_each_region_def for_loop.simps get_region_id_def INT_MAX_def
  lock_lambda_def unlock_lambda_def lock_shared_lambda_def unlock_shared_lambda_def
  try_lambda_def try_lock_f_def unlock_f_def try_lock_shared_f_def unlock_shared_f_def
  get_locked_region_def get_and_lock_region_def unlock_region_def set_mutex_def
  mutex_lock_def mutex_try_lock_def mutex_unlock_def
  mutex_lock_shared_def mutex_try_lock_shared_def mutex_unlock_shared_def Let_def

lemma new_range_lock_1024: "new_range_lock 1024 = Inr fresh_1024"
  by (simp add: new_range_lock_def fresh_1024_def)

lemma lock_fresh_1024: "lock 0 1 fresh_1024 = (Inr (), region0_held)"
  by (simp add: fresh_1024_def region0_held_def run_defs)

theorem invalid_request_rejected_untouched_witness:
  "\<not> accepted 5 0
   \<and> lock 5 0 region0_held = (Inl (Assertion_failed Length_positive), region0_held)
   \<and> \<not> accepted 18446744073709551615 2
   \<and> unlock 18446744073709551615 2 region0_held = (Inl (Assertion_failed No_overflow), region0_held)
   \<and> accepted 0 1
   \<and> fst (unlock 0 1 region0_held) \<noteq> Inl (Assertion_failed No_overflow)"
proof -
  have v: "validation_failure (Assertion_failed No_overflow)"
    by (simp add: validation_failure_def)
  have a: "\<not> accepted 5 0" "\<not> accepted 18446744073709551615 2" "accepted 0 1"
    by (simp_all add: accepted_def validate_parameters_def)
  have l: "fst (lock 5 0 region0_held) = Inl (Assertion_failed Length_positive)"
    by (simp add: lock_def validate_parameters_def)
  have u: "fst (unlock 18446744073709551615 2 region0_held) = Inl (Assertion_failed No_overflow)"
    by (simp add: unlock_def validate_parameters_def)
  from a(1) l have "lock 5 0 region0_held = (Inl (Assertion_failed Length_positive), region0_held)"
    using invalid_request_rejected_untouched [of 5 0 region0_held "\<lambda>s. (Inr (), s)"] by auto
  moreover from a(2) u
  have "unlock 18446744073709551615 2 region0_held = (Inl (Assertion_failed No_overflow), region0_held)"
    using invalid_request_rejected_untouched [of 18446744073709551615 2 region0_held "\<lambda>s. (Inr (), s)"] by auto
  moreover from a(3) v have "fst (unlock 0 1 region0_held) \<noteq> Inl (Assertion_failed No_overflow)"
    using invalid_request_rejected_untouched [of 0 1 region0_held "\<lambda>s. (Inr (), s)"] by blast
  ultimately show ?thesis using a by blast
qed

section \<open>Coverage of the requested bytes\<close>

text \<open>
  Claim C1. The source aligns the length up on its own, not the end \<open>offset + length\<close>: a
  request that starts inside one region and ends inside the next is given one region.
  With regions of 1024 bytes, \<open>lock(1023, 2)\<close> is accepted and visits region 0 only,
  where the widened interval \<open>[0, 2048)\<close> has regions 0 and 1; the byte 1024 stays free, and
  a second caller's \<open>lock(1024, 1)\<close> returns while the first holds its range. A length
  within \<open>region_size - 1\<close> of the top of \<open>uint64_t\<close> wraps in the rounding and visits
  nothing.
\<close>

theorem straddling_request_misses_last_region:
  "valid_region_size 1024 \<and> accepted 1023 2
   \<and> visited_ids 1024 1023 2 = [0]
   \<and> widened_region_ids 1024 1023 2 = [0, 1]
   \<and> fst (lock 1023 2 fresh_1024) = Inr ()
   \<and> fst (lock 1024 1 (snd (lock 1023 2 fresh_1024))) = Inr ()
   \<and> accepted 0 18446744073709551615
   \<and> visited_ids 1024 0 18446744073709551615 = []"
proof -
  have "accepted 1023 2" "accepted 0 18446744073709551615"
    by (simp_all add: accepted_def validate_parameters_def)
  moreover have "visited_ids 1024 1023 2 = [0]" "visited_ids 1024 0 18446744073709551615 = []"
    by (simp_all add: visited_ids_def record_id_def run_defs)
  moreover have "widened_region_ids 1024 1023 2 = [0, 1]"
    by (simp add: widened_region_ids_def align_down_def align_up_def upt_rec)
  moreover have "lock 1023 2 fresh_1024 = (Inr (), region0_held)"
    by (simp add: fresh_1024_def region0_held_def run_defs)
  moreover have "fst (lock 1024 1 region0_held) = Inr ()"
    by (simp add: region0_held_def run_defs)
  ultimately show ?thesis using valid_region_size_1024 by simp
qed

section \<open>A failed attempt\<close>

text \<open>
  Claim C2. \<open>try_lock_f\<close> counts the caller into a region before it tries the mutex, and
  \<open>generic_try_lock\<close> pushes the id to \<open>locked_region_ids\<close> only when the mutex was
  acquired; the rollback therefore never takes back the count of the region on which the
  attempt failed. With region 0 held by another caller, \<open>try_lock(0, 1)\<close> returns false and
  leaves the count of region 0 at 2; once the holder has unlocked, region 0 stays in the
  table with count 1 although nobody holds it. On two regions, \<open>try_lock(0, 2048)\<close> with
  region 1 held releases region 0 again and leaves the count of region 1 at 2.
\<close>

theorem failed_try_lock_leaks_refcount:
  "accepted 0 1
   \<and> try_lock 0 1 region0_held =
       (Inr False, \<lparr>m_regions = [0 \<mapsto> \<lparr>refcount = 2, mutex = Locked_exclusive\<rparr>],
                    region_size = 1024\<rparr>)
   \<and> snd (try_lock 0 1 region0_held) \<noteq> region0_held
   \<and> unlock 0 1 (snd (try_lock 0 1 region0_held)) =
       (Inr (), \<lparr>m_regions = [0 \<mapsto> \<lparr>refcount = 1, mutex = Unlocked\<rparr>], region_size = 1024\<rparr>)
   \<and> try_lock 0 2048 (snd (lock 1024 1 fresh_1024)) =
       (Inr False, \<lparr>m_regions = [1 \<mapsto> \<lparr>refcount = 2, mutex = Locked_exclusive\<rparr>],
                    region_size = 1024\<rparr>)
   \<and> try_lock_shared 0 1 region0_held =
       (Inr False, \<lparr>m_regions = [0 \<mapsto> \<lparr>refcount = 2, mutex = Locked_exclusive\<rparr>],
                    region_size = 1024\<rparr>)"
proof -
  have a: "accepted 0 1" by (simp add: accepted_def validate_parameters_def)
  have t: "try_lock 0 1 region0_held =
       (Inr False, \<lparr>m_regions = [0 \<mapsto> \<lparr>refcount = 2, mutex = Locked_exclusive\<rparr>],
                    region_size = 1024\<rparr>)"
    by (simp add: region0_held_def run_defs)
  have n: "snd (try_lock 0 1 region0_held) \<noteq> region0_held"
  proof
    assume "snd (try_lock 0 1 region0_held) = region0_held"
    then have "m_regions (snd (try_lock 0 1 region0_held)) 0 = m_regions region0_held 0" by simp
    then show False by (simp add: t) (simp add: region0_held_def)
  qed
  have u: "unlock 0 1 (snd (try_lock 0 1 region0_held)) =
       (Inr (), \<lparr>m_regions = [0 \<mapsto> \<lparr>refcount = 1, mutex = Unlocked\<rparr>], region_size = 1024\<rparr>)"
    by (simp add: t) (simp add: run_defs)
  have l: "lock 1024 1 fresh_1024 =
       (Inr (), \<lparr>m_regions = [1 \<mapsto> \<lparr>refcount = 1, mutex = Locked_exclusive\<rparr>],
                 region_size = 1024\<rparr>)"
    by (simp add: fresh_1024_def run_defs)
  have t2: "try_lock 0 2048 (snd (lock 1024 1 fresh_1024)) =
       (Inr False, \<lparr>m_regions = [1 \<mapsto> \<lparr>refcount = 2, mutex = Locked_exclusive\<rparr>],
                    region_size = 1024\<rparr>)"
    by (simp add: l) (simp add: run_defs fun_upd_twist)
  have ts: "try_lock_shared 0 1 region0_held =
       (Inr False, \<lparr>m_regions = [0 \<mapsto> \<lparr>refcount = 2, mutex = Locked_exclusive\<rparr>],
                    region_size = 1024\<rparr>)"
    by (simp add: region0_held_def run_defs)
  from a t n u t2 ts show ?thesis by (intro conjI)
qed

section \<open>The scoped helpers\<close>

text \<open>
  Claim C3. \<open>with_lock\<close> is the plain sequence lock, call, unlock with nothing that runs
  on the way out of a throwing call: when the operation throws, the exception leaves
  \<open>with_lock\<close> with the range still locked. On a new coordinator, \<open>with_lock(0, 1, op)\<close>
  with an \<open>op\<close> that throws ends with region 0 counted and its mutex held, and the same
  for \<open>with_lock_shared\<close>.
\<close>

theorem with_lock_leaks_on_exception:
  "with_lock 0 1 (\<lambda>s. (Inl Exception, s)) fresh_1024 = (Inl Exception, region0_held)
   \<and> with_lock_shared 0 1 (\<lambda>s. (Inl Exception, s)) fresh_1024 =
       (Inl Exception, \<lparr>m_regions = [0 \<mapsto> \<lparr>refcount = 1, mutex = Locked_shared 1\<rparr>],
                        region_size = 1024\<rparr>)
   \<and> with_lock 0 1 (\<lambda>s. (Inr (), s)) fresh_1024 = (Inr (), fresh_1024)"
proof -
  have "with_lock 0 1 (\<lambda>s. (Inl Exception, s)) fresh_1024 = (Inl Exception, region0_held)"
    by (simp add: with_lock_def lock_fresh_1024)
  moreover have "with_lock_shared 0 1 (\<lambda>s. (Inl Exception, s)) fresh_1024 =
       (Inl Exception, \<lparr>m_regions = [0 \<mapsto> \<lparr>refcount = 1, mutex = Locked_shared 1\<rparr>],
                        region_size = 1024\<rparr>)"
    by (simp add: fresh_1024_def run_defs)
  moreover have "unlock 0 1 region0_held = (Inr (), fresh_1024)"
    by (simp add: fresh_1024_def region0_held_def run_defs)
  then have "with_lock 0 1 (\<lambda>s. (Inr (), s)) fresh_1024 = (Inr (), fresh_1024)"
    by (simp add: with_lock_def lock_fresh_1024)
  ultimately show ?thesis by (intro conjI)
qed

section \<open>Entries of the table and their counts\<close>

lemma get_and_lock_region_entry:
  "m_regions (snd (get_and_lock_region x s)) y =
     (if y = x then
        (case m_regions s x of
           None \<Rightarrow> Some \<lparr>refcount = 1, mutex = Unlocked\<rparr>
         | Some r \<Rightarrow> Some (r\<lparr>refcount := refcount r + 1\<rparr>))
      else m_regions s y)"
  by (simp add: get_and_lock_region_def Let_def split: option.splits)

lemma unlock_region_entry:
  "m_regions (snd (unlock_region x s)) y =
     (if y = x then
        (case m_regions s x of
           None \<Rightarrow> None
         | Some r \<Rightarrow> if refcount r = 1 then None else Some (r\<lparr>refcount := refcount r - 1\<rparr>))
      else m_regions s y)"
  by (simp add: unlock_region_def Let_def word_pred_eq_0 split: option.splits)

lemma word_succ_eq_0: "((w :: u64) + 1 = 0) = (w = - 1)"
  by (metis add.commute add_eq_0_iff2 add_eq_0_iff)

lemma get_and_lock_region_table_ok:
  "table_ok s \<Longrightarrow> refcount_of s x \<noteq> - 1 \<Longrightarrow> table_ok (snd (get_and_lock_region x s))"
  by (auto simp: table_ok_def refcount_of_def get_and_lock_region_entry word_gt_0 word_succ_eq_0
      split: option.splits if_splits)

lemma unlock_region_table_ok:
  "table_ok s \<Longrightarrow> table_ok (snd (unlock_region x s))"
  by (auto simp: table_ok_def unlock_region_entry word_gt_0 word_pred_eq_0
      split: option.splits if_splits)

lemma set_mutex_table_ok:
  "table_ok s \<Longrightarrow> table_ok (set_mutex x m s)"
  by (auto simp: table_ok_def set_mutex_def split: option.splits if_splits)

text \<open>
  Claim C7. Starting from a coordinator the constructor has made, after any sequence of
  fewer than \<open>2^64\<close> public calls (of \<open>lock\<close>, \<open>try_lock\<close>, \<open>unlock\<close>, \<open>with_lock\<close> and the
  shared variants, with any arguments and whatever their outcome) every entry of the table
  has a positive count: a region is in the table if and only if its count is positive.
  Each of the steps that change the table keeps this so, whoever takes it:
  \<open>get_and_lock_region\<close> as long as the count is not at the top of \<open>uint64_t\<close>,
  \<open>unlock_region\<close> and the writing back of a mutex always.
  \<open>get_and_lock_region\<close> creates an entry exactly when the id has none, and the new entry
  has count 1; on an existing entry it adds 1. \<open>unlock_region\<close> erases the entry exactly
  when the decremented count is 0, and otherwise keeps it with the count one less. Neither
  touches another id, and writing a mutex back creates and erases nothing.
\<close>

theorem table_entry_iff_refcount_positive:
  assumes "new_range_lock rs = Inr s0" and "length cs < 2 ^ 64"
  shows "table_ok (run cs s0)
       \<and> (table_ok s \<and> refcount_of s x \<noteq> - 1 \<longrightarrow> table_ok (snd (get_and_lock_region x s)))
       \<and> (table_ok s \<longrightarrow> table_ok (snd (unlock_region x s)))
       \<and> (table_ok s \<longrightarrow> table_ok (set_mutex x m s))
       \<and> (m_regions s x = None \<longrightarrow>
            m_regions (snd (get_and_lock_region x s)) x = Some \<lparr>refcount = 1, mutex = Unlocked\<rparr>)
       \<and> (\<forall>r. m_regions s x = Some r \<longrightarrow>
            m_regions (snd (get_and_lock_region x s)) x = Some (r\<lparr>refcount := refcount r + 1\<rparr>))
       \<and> (\<forall>y. y \<noteq> x \<longrightarrow> m_regions (snd (get_and_lock_region x s)) y = m_regions s y)
       \<and> (\<forall>r. m_regions s x = Some r \<longrightarrow>
            m_regions (snd (unlock_region x s)) x =
              (if refcount r - 1 = 0 then None else Some (r\<lparr>refcount := refcount r - 1\<rparr>)))
       \<and> (\<forall>y. y \<noteq> x \<longrightarrow> m_regions (snd (unlock_region x s)) y = m_regions s y)
       \<and> (\<forall>y. (m_regions (set_mutex x m s) y = None) = (m_regions s y = None))"
proof -
  have "table_ok (run cs s0)" using assms by (rule run_table_ok)
  then show ?thesis
    by (simp add: get_and_lock_region_entry unlock_region_entry set_mutex_same word_pred_eq_0
        get_and_lock_region_table_ok unlock_region_table_ok set_mutex_table_ok)
qed

theorem table_entry_iff_refcount_positive_witness:
  "new_range_lock 1024 = Inr fresh_1024
   \<and> run [Lock 0 2048, Try_lock 0 1, Unlock 0 2048] fresh_1024 =
       \<lparr>m_regions = [0 \<mapsto> \<lparr>refcount = 1, mutex = Unlocked\<rparr>], region_size = 1024\<rparr>
   \<and> table_ok (run [Lock 0 2048, Try_lock 0 1, Unlock 0 2048] fresh_1024)
   \<and> table_ok fresh_1024
   \<and> table_ok (snd (get_and_lock_region 7 fresh_1024))
   \<and> m_regions (snd (get_and_lock_region 7 fresh_1024)) 7 = Some \<lparr>refcount = 1, mutex = Unlocked\<rparr>
   \<and> m_regions (snd (unlock_region 0 region0_held)) 0 = None"
proof -
  have r: "run [Lock 0 2048, Try_lock 0 1, Unlock 0 2048] fresh_1024 =
       \<lparr>m_regions = [0 \<mapsto> \<lparr>refcount = 1, mutex = Unlocked\<rparr>], region_size = 1024\<rparr>"
    by (simp add: fresh_1024_def returned_def run_defs fun_upd_twist)
  have l: "length [Lock 0 2048, Try_lock 0 1, Unlock 0 2048] < 2 ^ 64" by simp
  have f: "m_regions fresh_1024 7 = None" by (simp add: fresh_1024_def)
  have h: "m_regions region0_held 0 = Some \<lparr>refcount = 1, mutex = Locked_exclusive\<rparr>"
    by (simp add: region0_held_def)
  have t: "table_ok fresh_1024" "refcount_of fresh_1024 7 \<noteq> - 1"
    by (simp_all add: table_ok_def refcount_of_def fresh_1024_def)
  from table_entry_iff_refcount_positive [OF new_range_lock_1024 l, of fresh_1024 7] f t
  have "table_ok (run [Lock 0 2048, Try_lock 0 1, Unlock 0 2048] fresh_1024)"
    "table_ok (snd (get_and_lock_region 7 fresh_1024))"
    "m_regions (snd (get_and_lock_region 7 fresh_1024)) 7 = Some \<lparr>refcount = 1, mutex = Unlocked\<rparr>"
    by simp_all
  moreover from table_entry_iff_refcount_positive [OF new_range_lock_1024 l, of region0_held 0] h
  have "m_regions (snd (unlock_region 0 region0_held)) 0 = None" by simp
  ultimately show ?thesis using r t(1) new_range_lock_1024 by simp
qed

section \<open>Balanced sequences\<close>

lemma new_range_lock_counts:
  assumes "new_range_lock rs = Inr s"
  shows "counts [] s" and "valid_region_size (region_size s)" and "m_regions s = Map.empty"
    and "region_size s = rs"
  using assms
  by (auto simp: new_range_lock_def counts_def table_ok_def refcount_of_def holders_def
      valid_region_size_def split: if_splits)

text \<open>
  Claim C8. Starting from a coordinator the constructor has made, whose table is empty: after
  any balanced sequence of fewer than \<open>2^64\<close> calls that all returned (the \<open>try\<close> calls
  with true), the table is empty again. For every accepted request of at most \<open>INT_MAX\<close>
  regions, \<open>lock\<close> followed by \<open>unlock\<close>, a \<open>try_lock\<close> followed by \<open>unlock\<close>, their
  shared counterparts, and \<open>with_lock\<close> with an operation that returns, are such sequences:
  each call returns (the \<open>try\<close> with true) and the coordinator is back in its first state.
\<close>

theorem balanced_calls_leave_table_empty:
  assumes "new_range_lock rs = Inr s0"
  shows "m_regions s0 = Map.empty
       \<and> (balanced cs \<and> length cs < 2 ^ 64 \<and> run_all cs s0 = Some s \<longrightarrow> m_regions s = Map.empty)
       \<and> (accepted offset len \<and> region_count rs len \<le> INT_MAX \<longrightarrow>
            run_all [Lock offset len, Unlock offset len] s0 = Some s0
          \<and> run_all [Try_lock offset len, Unlock offset len] s0 = Some s0
          \<and> run_all [Lock_shared offset len, Unlock_shared offset len] s0 = Some s0
          \<and> run_all [Try_lock_shared offset len, Unlock_shared offset len] s0 = Some s0
          \<and> run_all [With_lock offset len False] s0 = Some s0
          \<and> run_all [With_lock_shared offset len False] s0 = Some s0)"
proof (intro conjI impI)
  note n = new_range_lock_counts [OF assms]
  show "m_regions s0 = Map.empty" by (rule n(3))
  {
    assume b: "balanced cs \<and> length cs < 2 ^ 64 \<and> run_all cs s0 = Some s"
    note v = n(2) and c = n(1)
    from b have l: "length ([] :: (bool \<times> u64 \<times> u64) list) + length cs < 2 ^ 64" by simp
    from b have bf: "balanced_from [] cs" and r: "run_all cs s0 = Some s"
      by (simp_all add: balanced_def)
    from v c l bf r show "m_regions s = Map.empty" by (rule run_all_balanced)
  }
  assume a: "accepted offset len \<and> region_count rs len \<le> INT_MAX"
  note v = n(2)
  from a have acc: "accepted offset len" by simp
  from a have c: "region_count (region_size s0) len \<le> INT_MAX" by (simp add: n(4))
  have free: "\<forall>x\<in>set (visited_ids (region_size s0) offset len). m_regions s0 x = None"
    by (simp add: n(3))
  note rt = roundtrip [OF v acc c free]
  show "run_all [Lock offset len, Unlock offset len] s0 = Some s0"
    by (simp add: rt returned_def)
  show "run_all [Try_lock offset len, Unlock offset len] s0 = Some s0"
    by (simp add: rt returned_def)
  show "run_all [Lock_shared offset len, Unlock_shared offset len] s0 = Some s0"
    by (simp add: rt returned_def)
  show "run_all [Try_lock_shared offset len, Unlock_shared offset len] s0 = Some s0"
    by (simp add: rt returned_def)
  show "run_all [With_lock offset len False] s0 = Some s0"
    by (simp add: rt returned_def with_lock_def func_of_def)
  show "run_all [With_lock_shared offset len False] s0 = Some s0"
    by (simp add: rt returned_def with_lock_shared_def func_of_def)
qed

theorem balanced_calls_leave_table_empty_witness:
  "new_range_lock 1024 = Inr fresh_1024
   \<and> balanced [Lock 0 2048, Lock_shared 4096 1, Try_lock 8192 100,
                Unlock 0 2048, Unlock 8192 100, Unlock_shared 4096 1]
   \<and> run_all [Lock 0 2048, Lock_shared 4096 1, Try_lock 8192 100,
               Unlock 0 2048, Unlock 8192 100, Unlock_shared 4096 1] fresh_1024 = Some fresh_1024
   \<and> m_regions fresh_1024 = Map.empty
   \<and> accepted 2048 3000
   \<and> run_all [Lock 2048 3000, Unlock 2048 3000] fresh_1024 = Some fresh_1024"
proof -
  let ?cs = "[Lock 0 2048, Lock_shared 4096 1, Try_lock 8192 100,
              Unlock 0 2048, Unlock 8192 100, Unlock_shared 4096 1]"
  have b: "balanced ?cs" by (simp add: balanced_def)
  have l: "length ?cs < 2 ^ 64" by simp
  have r: "run_all ?cs fresh_1024 = Some fresh_1024"
    by (simp add: fresh_1024_def returned_def run_defs fun_upd_twist)
  have a: "accepted 2048 3000" by (simp add: accepted_def validate_parameters_def)
  have c: "region_count 1024 3000 \<le> INT_MAX" by (simp add: region_count_def INT_MAX_def)
  from balanced_calls_leave_table_empty [OF new_range_lock_1024, of ?cs fresh_1024 2048 3000]
    b l r a c
  have "m_regions fresh_1024 = Map.empty"
    "run_all [Lock 2048 3000, Unlock 2048 3000] fresh_1024 = Some fresh_1024"
    by simp_all
  with b r a new_range_lock_1024 show ?thesis by simp
qed

section \<open>Unlocking what is not held\<close>

lemma unlock_visits_present:
  assumes v: "valid_region_size (region_size s)" and a: "accepted offset len"
    and x: "x \<in> set (visited_ids (region_size s) offset len)" and n: "m_regions s x = None"
  shows "fst (unlock offset len s) \<noteq> Inr ()" and "fst (unlock_shared offset len s) \<noteq> Inr ()"
proof -
  show "fst (unlock offset len s) \<noteq> Inr ()"
  proof
    assume "fst (unlock offset len s) = Inr ()"
    then have "unlock offset len s = (Inr (), snd (unlock offset len s))"
      by (metis prod.collapse)
    from unlock_returns [OF v this] x n show False by (auto simp: released_def)
  qed
  show "fst (unlock_shared offset len s) \<noteq> Inr ()"
  proof
    assume "fst (unlock_shared offset len s) = Inr ()"
    then have "unlock_shared offset len s = (Inr (), snd (unlock_shared offset len s))"
      by (metis prod.collapse)
    from unlock_shared_returns [OF v this] x n show False by (auto simp: released_def)
  qed
qed

lemma unlock_lambda_outcome:
  "fst (unlock_lambda x s) = Inl e \<Longrightarrow>
     e = Assertion_failed Region_exists \<or> e = Assertion_failed Region_is_locked
     \<or> e = Undefined_behaviour"
  "fst (unlock_shared_lambda x s) = Inl e \<Longrightarrow>
     e = Assertion_failed Region_exists \<or> e = Assertion_failed Region_is_locked
     \<or> e = Undefined_behaviour"
  using unlock_f_cases [of x s] unlock_shared_f_cases [of x s]
  by (auto simp: unlock_lambda_def unlock_shared_lambda_def split: prod.splits sum.splits)

lemma unlock_outcome:
  assumes v: "valid_region_size (region_size s)" and a: "accepted offset len"
  shows "fst (unlock offset len s) = Inl e \<Longrightarrow>
     e = Assertion_failed Region_exists \<or> e = Assertion_failed Region_is_locked
     \<or> e = Undefined_behaviour"
    and "fst (unlock_shared offset len s) = Inl e \<Longrightarrow>
     e = Assertion_failed Region_exists \<or> e = Assertion_failed Region_is_locked
     \<or> e = Undefined_behaviour"
proof -
  from a have va: "validate_parameters offset len = Inr ()" by (simp add: accepted_def)
  {
    assume "fst (unlock offset len s) = Inl e"
    then have "fst (iterate unlock_lambda (visited_ids (region_size s) offset len)
        (INT_MAX < region_count (region_size s) len) s) = Inl e"
      by (simp add: unlock_def va for_each_region_visited [OF v a])
    then have "e = Undefined_behaviour \<or> (\<exists>x s'. fst (unlock_lambda x s') = Inl e)"
      by (rule iterate_failure)
    then show "e = Assertion_failed Region_exists \<or> e = Assertion_failed Region_is_locked
       \<or> e = Undefined_behaviour"
      using unlock_lambda_outcome(1) by blast
  }
  assume "fst (unlock_shared offset len s) = Inl e"
  then have "fst (iterate unlock_shared_lambda (visited_ids (region_size s) offset len)
      (INT_MAX < region_count (region_size s) len) s) = Inl e"
    by (simp add: unlock_shared_def va for_each_region_visited [OF v a])
  then have "e = Undefined_behaviour \<or> (\<exists>x s'. fst (unlock_shared_lambda x s') = Inl e)"
    by (rule iterate_failure)
  then show "e = Assertion_failed Region_exists \<or> e = Assertion_failed Region_is_locked
     \<or> e = Undefined_behaviour"
    using unlock_lambda_outcome(2) by blast
qed

lemma unlock_first_absent:
  assumes v: "valid_region_size (region_size s)" and a: "accepted offset len"
    and c: "0 < region_count (region_size s) len"
    and n: "m_regions s (get_region_id (region_size s) offset) = None"
  shows "unlock offset len s = (Inl (Assertion_failed Region_exists), s)"
    and "unlock_shared offset len s = (Inl (Assertion_failed Region_exists), s)"
proof -
  from a have va: "validate_parameters offset len = Inr ()" by (simp add: accepted_def)
  let ?m = "min (region_count (region_size s) len) (Suc INT_MAX)"
  from c have "0 < ?m" by simp
  then have "[0..<?m] = 0 # [Suc 0..<?m]" by (rule upt_conv_Cons)
  then have ids: "visited_ids (region_size s) offset len =
      get_region_id (region_size s) offset #
        map (\<lambda>k. get_region_id (region_size s) offset + of_nat k) [Suc 0..<?m]"
    by (simp add: visited_ids_consecutive [OF v a])
  from n have "unlock_lambda (get_region_id (region_size s) offset) s =
      (Inl (Assertion_failed Region_exists), s)"
    by (simp add: unlock_lambda_def unlock_f_absent)
  then show "unlock offset len s = (Inl (Assertion_failed Region_exists), s)"
    by (simp add: unlock_def va for_each_region_visited [OF v a] ids iterate_def)
  from n have "unlock_shared_lambda (get_region_id (region_size s) offset) s =
      (Inl (Assertion_failed Region_exists), s)"
    by (simp add: unlock_shared_lambda_def unlock_f_absent)
  then show "unlock_shared offset len s = (Inl (Assertion_failed Region_exists), s)"
    by (simp add: unlock_shared_def va for_each_region_visited [OF v a] ids iterate_def)
qed

text \<open>
  Claim C10, as the source has it. \<open>unlock\<close> and \<open>unlock_shared\<close> keep no record of the
  requests that were locked; they assert, region by region, that the region has an entry
  with a positive count. Locking \<open>(0, 2048)\<close> and then unlocking \<open>(0, 1024)\<close>, a range never
  locked with that offset and length, returns normally and leaves region 1 held.
\<close>

theorem unlock_of_mismatched_range_returns:
  "fst (lock 0 2048 fresh_1024) = Inr ()
   \<and> accepted 0 1024
   \<and> unlock 0 1024 (snd (lock 0 2048 fresh_1024)) =
       (Inr (), \<lparr>m_regions = [1 \<mapsto> \<lparr>refcount = 1, mutex = Locked_exclusive\<rparr>],
                 region_size = 1024\<rparr>)"
proof -
  have l: "lock 0 2048 fresh_1024 =
    (Inr (), \<lparr>m_regions = [0 \<mapsto> \<lparr>refcount = 1, mutex = Locked_exclusive\<rparr>,
                            1 \<mapsto> \<lparr>refcount = 1, mutex = Locked_exclusive\<rparr>],
              region_size = 1024\<rparr>)"
    by (simp add: fresh_1024_def run_defs)
  have a: "accepted 0 1024" by (simp add: accepted_def validate_parameters_def)
  have "unlock 0 1024 (snd (lock 0 2048 fresh_1024)) =
       (Inr (), \<lparr>m_regions = [1 \<mapsto> \<lparr>refcount = 1, mutex = Locked_exclusive\<rparr>],
                 region_size = 1024\<rparr>)"
    by (simp add: l) (simp add: run_defs fun_upd_twist)
  with l a show ?thesis by simp
qed

text \<open>
  Claim C10, amended. For an accepted request on a constructed coordinator: when a region
  that \<open>unlock\<close> (or \<open>unlock_shared\<close>) visits has no entry in the table, the call does not
  return; it ends on a failed assertion of \<open>get_locked_region\<close>, or in the undefined
  behaviour of unlocking a mutex that is not held in that mode. When the first region it
  visits has no entry, as for a range none of whose regions is held, it aborts on the
  assertion that the region exists, at once and with the coordinator untouched.
\<close>

theorem unlock_of_absent_region_aborts:
  assumes "valid_region_size (region_size s)" and "accepted offset len"
  shows "(0 < region_count (region_size s) len
            \<and> m_regions s (get_region_id (region_size s) offset) = None \<longrightarrow>
              unlock offset len s = (Inl (Assertion_failed Region_exists), s)
            \<and> unlock_shared offset len s = (Inl (Assertion_failed Region_exists), s))
       \<and> ((\<exists>x\<in>set (visited_ids (region_size s) offset len). m_regions s x = None) \<longrightarrow>
            (\<exists>e. fst (unlock offset len s) = Inl e
                \<and> (e = Assertion_failed Region_exists \<or> e = Assertion_failed Region_is_locked
                    \<or> e = Undefined_behaviour))
          \<and> (\<exists>e. fst (unlock_shared offset len s) = Inl e
                \<and> (e = Assertion_failed Region_exists \<or> e = Assertion_failed Region_is_locked
                    \<or> e = Undefined_behaviour)))"
proof (intro conjI impI)
  assume "0 < region_count (region_size s) len
            \<and> m_regions s (get_region_id (region_size s) offset) = None"
  then show "unlock offset len s = (Inl (Assertion_failed Region_exists), s)"
    "unlock_shared offset len s = (Inl (Assertion_failed Region_exists), s)"
    using unlock_first_absent [OF assms] by simp_all
next
  assume "\<exists>x\<in>set (visited_ids (region_size s) offset len). m_regions s x = None"
  then obtain x where x: "x \<in> set (visited_ids (region_size s) offset len)" "m_regions s x = None"
    by blast
  from unlock_visits_present(1) [OF assms x]
  obtain e where e: "fst (unlock offset len s) = Inl e"
    by (cases "fst (unlock offset len s)") auto
  with unlock_outcome(1) [OF assms e]
  show "\<exists>e. fst (unlock offset len s) = Inl e
          \<and> (e = Assertion_failed Region_exists \<or> e = Assertion_failed Region_is_locked
              \<or> e = Undefined_behaviour)"
    by blast
  from unlock_visits_present(2) [OF assms x]
  obtain e' where e': "fst (unlock_shared offset len s) = Inl e'"
    by (cases "fst (unlock_shared offset len s)") auto
  with unlock_outcome(2) [OF assms e']
  show "\<exists>e. fst (unlock_shared offset len s) = Inl e
          \<and> (e = Assertion_failed Region_exists \<or> e = Assertion_failed Region_is_locked
              \<or> e = Undefined_behaviour)"
    by blast
qed

theorem unlock_of_absent_region_aborts_witness:
  "valid_region_size (region_size region0_held) \<and> accepted 1024 1
   \<and> 0 < region_count (region_size region0_held) 1
   \<and> m_regions region0_held (get_region_id (region_size region0_held) 1024) = None
   \<and> unlock 1024 1 region0_held = (Inl (Assertion_failed Region_exists), region0_held)
   \<and> accepted 0 2048
   \<and> m_regions region0_held 1 = None
   \<and> fst (unlock 0 2048 region0_held) = Inl (Assertion_failed Region_exists)"
proof -
  have v: "valid_region_size (region_size region0_held)"
    using valid_region_size_1024 by (simp add: region0_held_def)
  have a: "accepted 1024 1" "accepted 0 2048"
    by (simp_all add: accepted_def validate_parameters_def)
  have c: "0 < region_count (region_size region0_held) 1"
    by (simp add: region0_held_def region_count_def)
  have n: "m_regions region0_held (get_region_id (region_size region0_held) 1024) = None"
    "m_regions region0_held 1 = None"
    by (simp_all add: region0_held_def get_region_id_def)
  have u: "fst (unlock 0 2048 region0_held) = Inl (Assertion_failed Region_exists)"
    by (simp add: region0_held_def run_defs)
  from unlock_of_absent_region_aborts [OF v a(1)] c n(1)
  have "unlock 1024 1 region0_held = (Inl (Assertion_failed Region_exists), region0_held)"
    by simp
  with v a c n u show ?thesis by simp
qed

end
